theory Spec2Isabelle
  imports Main
begin

section \<open>Narwhal: NFS read/write locks (narwhal.c)\<close>

text \<open>
  The development follows \<^verbatim>\<open>narwhal.c\<close>. The process-wide variables of the C file
  (\<^verbatim>\<open>state_text\<close>, \<^verbatim>\<open>client_states\<close>, \<^verbatim>\<open>n_client_states\<close>, \<^verbatim>\<open>granted_state\<close>,
  \<^verbatim>\<open>client_states_changed\<close>, \<^verbatim>\<open>errno\<close>) and the state file on disk form an explicit
  state that every function takes and returns. The array \<^verbatim>\<open>client_states\<close> is a store
  from slot indices to structs, and the pointer \<^verbatim>\<open>granted_state\<close> is a slot index, so
  that what the code reads through that pointer is what the model reads.
  What the operating system decides (the clock, the outcome of each system call) is
  an explicit argument.
\<close>

subsection \<open>Data\<close>

text \<open>\<^verbatim>\<open>typedef struct { ... } ClientState\<close>; the two \<^verbatim>\<open>const char*\<close> fields are the
  strings they point to. \<^verbatim>\<open>time\<close> is a \<^verbatim>\<open>long long\<close> that holds a reading of the
  clock; readings, and the difference \<^verbatim>\<open>time(NULL) - timeout_sec\<close>, are integers
  here, far from the bounds of 64 bits.\<close>

record ClientState =
  is_write_lock :: bool
  is_granted :: bool
  time :: int
  host_name :: string
  pid :: string

text \<open>The calls made on the two lock files.\<close>

datatype syscall = Creat string | Link string string | Unlink string

text \<open>The static variables of the file, \<^verbatim>\<open>errno\<close>, the content of
  \<^verbatim>\<open>{lockdir}/state\<close>, and the calls made so far on the lock files, in the order
  they were made. \<^verbatim>\<open>state_text\<close> is the whole buffer, terminators included. A state
  file that does not exist yet is the empty file: \<^verbatim>\<open>load_state_text\<close> opens it with
  \<^verbatim>\<open>O_CREAT\<close>.\<close>

record world =
  state_text :: string
  client_states :: "nat \<Rightarrow> ClientState"
  n_client_states :: nat
  granted_state :: "nat option"
  client_states_changed :: bool
  errno :: int
  state_file :: string
  lock_calls :: "syscall list"

text \<open>A call either returns \<^verbatim>\<open>-1\<close> (with \<^verbatim>\<open>errno\<close> as the world has it), or an
  \<^verbatim>\<open>assert\<close> fails and the process is aborted.\<close>

datatype failure = ReturnedError | AssertFailed

text \<open>Values of \<^verbatim>\<open>errno.h\<close> (Linux numbering).\<close>

definition ENOENT :: int where "ENOENT = 2"
definition EEXIST :: int where "EEXIST = 17"
definition EIO :: int where "EIO = 5"
definition EACCES :: int where "EACCES = 13"
definition ENOTSUP :: int where "ENOTSUP = 95"
definition ETIMEDOUT :: int where "ETIMEDOUT = 110"

subsection \<open>Decimal numbers: \<^verbatim>\<open>%lld\<close> and \<^verbatim>\<open>atoll\<close>\<close>

definition isspace :: "char \<Rightarrow> bool" where
  "isspace c = (c = CHR '' '' \<or> (9 \<le> (of_char c :: nat) \<and> (of_char c :: nat) \<le> 13))"

definition isdigit :: "char \<Rightarrow> bool" where
  "isdigit c = (48 \<le> (of_char c :: nat) \<and> (of_char c :: nat) \<le> 57)"

text \<open>The digits of \<^verbatim>\<open>strtoll\<close> in base 10, accumulated until the first character that
  is not a digit.\<close>

fun strtoll_digits :: "int \<Rightarrow> string \<Rightarrow> int" where
  "strtoll_digits acc [] = acc"
| "strtoll_digits acc (c # cs) =
     (if isdigit c then strtoll_digits (10 * acc + (of_char c - 48)) cs else acc)"

text \<open>\<^verbatim>\<open>atoll\<close>: leading white space, an optional sign, digits. The result is not
  clamped to 64 bits: the library only reads what \<^verbatim>\<open>%lld\<close> printed from a
  \<^verbatim>\<open>long long\<close>.\<close>

definition atoll :: "string \<Rightarrow> int" where
  "atoll s =
     (case dropWhile isspace s of
        [] \<Rightarrow> 0
      | c # cs \<Rightarrow>
          if c = CHR ''-'' then - strtoll_digits 0 cs
          else if c = CHR ''+'' then strtoll_digits 0 cs
          else strtoll_digits 0 (c # cs))"

fun decimal :: "nat \<Rightarrow> string" where
  "decimal n =
     (if n < 10 then [char_of (n + 48)]
      else decimal (n div 10) @ [char_of (n mod 10 + 48)])"

declare decimal.simps [simp del]

text \<open>\<^verbatim>\<open>printf("%lld", t)\<close>.\<close>

definition lld :: "int \<Rightarrow> string" where
  "lld t = (if t < 0 then CHR ''-'' # decimal (nat (- t)) else decimal (nat t))"

subsection \<open>Parsing the state file: \<^verbatim>\<open>parse_client_states\<close>\<close>

text \<open>The first loop: every space and line break up to the terminator becomes
  \<^verbatim>\<open>'\0'\<close>.\<close>

fun nul_separators :: "string \<Rightarrow> string" where
  "nul_separators [] = []"
| "nul_separators (c # cs) =
     (if c = CHR 0x00 then c # cs
      else (if c = CHR 0x0A \<or> c = CHR '' '' then CHR 0x00 else c) # nul_separators cs)"

text \<open>The C string that starts at \<^verbatim>\<open>p\<close>, and \<^verbatim>\<open>p\<close> after \<^verbatim>\<open>while (*p++);\<close>.\<close>

fun c_string :: "string \<Rightarrow> string" where
  "c_string [] = []"
| "c_string (c # cs) = (if c = CHR 0x00 then [] else c # c_string cs)"

fun skip_string :: "string \<Rightarrow> string" where
  "skip_string [] = []"
| "skip_string (c # cs) = (if c = CHR 0x00 then cs else skip_string cs)"

text \<open>One round of the \<^verbatim>\<open>switch (field_index++ % 5)\<close>: \<^verbatim>\<open>tok\<close> is the string at
  \<^verbatim>\<open>p\<close>, \<^verbatim>\<open>k\<close> the field number, \<^verbatim>\<open>nx\<close> the slot \<^verbatim>\<open>next_client_state\<close> points to.
  The result is the new \<^verbatim>\<open>next_client_state\<close> and the updated variables.\<close>

definition parse_field ::
  "int \<Rightarrow> string \<Rightarrow> nat \<Rightarrow> nat \<Rightarrow> world \<Rightarrow> failure + nat \<times> world" where
  "parse_field first_fresh_time tok k nx w =
     (let cs = client_states w; cur = cs nx in
      if k = 0 then Inr (nx, w\<lparr>client_states := cs(nx := cur\<lparr>host_name := tok\<rparr>)\<rparr>)
      else if k = 1 then Inr (nx, w\<lparr>client_states := cs(nx := cur\<lparr>pid := tok\<rparr>)\<rparr>)
      else if k = 2 then
        (if tl tok \<noteq> [] then Inl AssertFailed
         else if hd tok = CHR ''R'' then
           Inr (nx, w\<lparr>client_states := cs(nx := cur\<lparr>is_write_lock := False\<rparr>)\<rparr>)
         else if hd tok = CHR ''W'' then
           Inr (nx, w\<lparr>client_states := cs(nx := cur\<lparr>is_write_lock := True\<rparr>)\<rparr>)
         else Inl AssertFailed)
      else if k = 3 then
        (if tl tok \<noteq> [] then Inl AssertFailed
         else if hd tok = CHR ''P'' then
           Inr (nx, w\<lparr>client_states := cs(nx := cur\<lparr>is_granted := False\<rparr>)\<rparr>)
         else if hd tok = CHR ''G'' then
           Inr (nx, w\<lparr>client_states := cs(nx := cur\<lparr>is_granted := True\<rparr>),
                     granted_state := Some nx\<rparr>)
         else Inl AssertFailed)
      else if k = 4 then
        (let t = atoll tok in
         if t \<ge> first_fresh_time then
           Inr (Suc nx, w\<lparr>client_states := cs(nx := cur\<lparr>time := t\<rparr>)\<rparr>)
         else
           Inr (nx, w\<lparr>client_states := cs(nx := cur\<lparr>time := t\<rparr>),
                     client_states_changed := True\<rparr>))
      else Inl AssertFailed)"

text \<open>The second loop, \<^verbatim>\<open>while (*p) { switch ...; while (*p++); }\<close>, and the final
  \<^verbatim>\<open>n_client_states = next_client_state - client_states\<close>. The buffer always ends
  with two terminators, so the walk stays inside it.\<close>

function parse_loop :: "int \<Rightarrow> string \<Rightarrow> nat \<Rightarrow> nat \<Rightarrow> world \<Rightarrow> failure + world" where
  "parse_loop first_fresh_time p field_index nx w =
     (if p = [] \<or> hd p = CHR 0x00 then Inr (w\<lparr>n_client_states := nx\<rparr>)
      else
        (case parse_field first_fresh_time (c_string p) (field_index mod 5) nx w of
           Inl f \<Rightarrow> Inl f
         | Inr (nx', w') \<Rightarrow>
             parse_loop first_fresh_time (skip_string p) (Suc field_index) nx' w'))"
  by pat_completeness auto
termination
proof (relation "measure (\<lambda>(ff, p, fi, nx, w). length p)")
  show "wf (measure (\<lambda>(ff, p, fi, nx, w). length p))" by simp
next
  fix first_fresh_time :: int and p :: string and field_index nx :: nat and w :: world
    and x2 :: "nat \<times> world" and x y
  assume "\<not> (p = [] \<or> hd p = CHR 0x00)"
  then obtain c cs where p: "p = c # cs" by (cases p) auto
  have "length (skip_string q) \<le> length q" for q
    by (induction q) auto
  then have "length (skip_string p) < length p"
    unfolding p by (simp add: less_Suc_eq_le le_SucI)
  then show "((first_fresh_time, skip_string p, Suc field_index, x, y),
              first_fresh_time, p, field_index, nx, w)
             \<in> measure (\<lambda>(ff, p, fi, nx, w). length p)"
    by simp
qed

declare parse_loop.simps [simp del]

text \<open>\<^verbatim>\<open>parse_client_states\<close>; \<^verbatim>\<open>now\<close> is what \<^verbatim>\<open>time(NULL)\<close> returns. The count of
  line breaks of the first loop only sizes the array (one slot more than lines) and
  is overwritten at the end, so it is left out.\<close>

definition parse_client_states :: "int \<Rightarrow> int \<Rightarrow> world \<Rightarrow> failure + world" where
  "parse_client_states timeout_sec now w =
     (let first_fresh_time = now - timeout_sec;
          text = nul_separators (state_text w) in
      parse_loop first_fresh_time text 0 0
        (w\<lparr>state_text := text, client_states_changed := False, granted_state := None\<rparr>))"

subsection \<open>Writing the state file: \<^verbatim>\<open>dump_client_states\<close>\<close>

text \<open>One \<^verbatim>\<open>fprintf(state_fp, "%s %s %c %c %lld\n", ...)\<close>.\<close>

definition state_line :: "ClientState \<Rightarrow> string" where
  "state_line c =
     host_name c @ '' '' @ pid c @ '' ''
       @ [if is_write_lock c then CHR ''W'' else CHR ''R''] @ '' ''
       @ [if is_granted c then CHR ''G'' else CHR ''P''] @ '' ''
       @ lld (time c) @ [CHR 0x0A]"

definition serialize :: "ClientState list \<Rightarrow> string" where
  "serialize cs = concat (map state_line cs)"

text \<open>The slots \<^verbatim>\<open>client_states[0 .. n_client_states)\<close>.\<close>

definition entries :: "world \<Rightarrow> ClientState list" where
  "entries w = map (client_states w) [0 ..< n_client_states w]"

subsection \<open>What the operating system decides\<close>

text \<open>Each system call either succeeds, leaving \<^verbatim>\<open>errno\<close> as it is, or fails and
  sets \<^verbatim>\<open>errno\<close>; \<^verbatim>\<open>None\<close> is success, \<^verbatim>\<open>Some e\<close> failure with \<^verbatim>\<open>errno = e\<close>.
  The diagnostics written to \<^verbatim>\<open>stderr\<close> are left out.\<close>

type_synonym syscall_io = "int option"

text \<open>\<^verbatim>\<open>load_state_text\<close>: everything succeeds; \<^verbatim>\<open>open\<close> fails with \<^verbatim>\<open>ENOENT\<close>
  (the function returns 0 and leaves the buffer as it was); or \<^verbatim>\<open>open\<close>,
  \<^verbatim>\<open>fstat\<close>, \<^verbatim>\<open>read\<close> or \<^verbatim>\<open>close\<close> fails (a short \<^verbatim>\<open>read\<close> sets no \<^verbatim>\<open>errno\<close>),
  leaving the given bytes in the buffer.\<close>

datatype load_io = LoadOk | LoadNoEnt | LoadFails "int option" string

text \<open>\<^verbatim>\<open>dump_client_states\<close>: everything succeeds; \<^verbatim>\<open>fopen\<close> fails (the file is
  untouched); or a later \<^verbatim>\<open>fprintf\<close> or \<^verbatim>\<open>fclose\<close> fails, when the file, already
  truncated, holds only that many bytes of the new text.\<close>

datatype dump_io = DumpOk | FopenFails int | WriteFails int nat

text \<open>One round of the loop of a public operation: the outcome of \<^verbatim>\<open>creat\<close> (and
  \<^verbatim>\<open>close\<close>) of the private file, the clock when the deadline is computed, for
  each attempt the outcome of \<^verbatim>\<open>link\<close> and the clock after the sleep, the outcome
  of loading, the clock in \<^verbatim>\<open>parse_client_states\<close>, the clock in
  \<^verbatim>\<open>request_lock\<close>, the outcome of writing, and the outcomes of the two
  \<^verbatim>\<open>unlink\<close> calls.\<close>

record round_io =
  creat_io :: syscall_io
  lock_clock :: int
  link_io :: "(syscall_io \<times> int) list"
  load_io :: load_io
  parse_clock :: int
  request_clock :: int
  dump_io :: dump_io
  unlink_lockfile_io :: syscall_io
  unlink_private_io :: syscall_io

text \<open>The \<^verbatim>\<open>Narwhal\<close> struct of the header (without \<^verbatim>\<open>spin_usec\<close>, which only
  sets the length of a sleep), and the identity \<^verbatim>\<open>init()\<close> or the setters left in
  \<^verbatim>\<open>host_name\<close> and \<^verbatim>\<open>pid\<close>.\<close>

record Narwhal =
  lockdir :: string
  timeout_sec :: int

record identity =
  my_host_name :: string
  my_pid :: string

subsection \<open>Loading and writing\<close>

definition load_state_text :: "load_io \<Rightarrow> world \<Rightarrow> (failure + unit) \<times> world" where
  "load_state_text io w =
     (case io of
        LoadOk \<Rightarrow> (Inr (), w\<lparr>state_text := state_file w @ [CHR 0x00, CHR 0x00]\<rparr>)
      | LoadNoEnt \<Rightarrow> (Inr (), w\<lparr>errno := ENOENT\<rparr>)
      | LoadFails e buf \<Rightarrow>
          (Inl ReturnedError,
           w\<lparr>state_text := buf, errno := (case e of None \<Rightarrow> errno w | Some e' \<Rightarrow> e')\<rparr>))"

definition load_client_states ::
  "Narwhal \<Rightarrow> load_io \<Rightarrow> int \<Rightarrow> world \<Rightarrow> (failure + unit) \<times> world" where
  "load_client_states narwhal io now w =
     (case load_state_text io w of
        (Inl f, w') \<Rightarrow> (Inl f, w')
      | (Inr _, w') \<Rightarrow>
          (case parse_client_states (timeout_sec narwhal) now w' of
             Inl f \<Rightarrow> (Inl f, w')
           | Inr w'' \<Rightarrow> (Inr (), w'')))"

text \<open>\<^verbatim>\<open>dump_client_states\<close> returns 0 or a negative number.\<close>

definition dump_client_states :: "dump_io \<Rightarrow> world \<Rightarrow> int \<times> world" where
  "dump_client_states io w =
     (case io of
        DumpOk \<Rightarrow> (0, w\<lparr>state_file := serialize (entries w)\<rparr>)
      | FopenFails e \<Rightarrow> (- 1, w\<lparr>errno := e\<rparr>)
      | WriteFails e k \<Rightarrow>
          (- 1, w\<lparr>errno := e, state_file := take k (serialize (entries w))\<rparr>))"

subsection \<open>The request engine: \<^verbatim>\<open>request_lock\<close> and \<^verbatim>\<open>remove_lock\<close>\<close>

text \<open>The search loop of both functions, \<^verbatim>\<open>for (; client_state != end_state;
  client_state++)\<close> with \<^verbatim>\<open>continue\<close> on \<^verbatim>\<open>strcmp(...) || strcmp(...)\<close>: with
  \<^verbatim>\<open>k\<close> slots left from slot \<^verbatim>\<open>i\<close> on, the slot where the loop stops
  (\<^verbatim>\<open>end_state\<close> when nothing matches).\<close>

fun find_client :: "identity \<Rightarrow> (nat \<Rightarrow> ClientState) \<Rightarrow> nat \<Rightarrow> nat \<Rightarrow> nat" where
  "find_client me cs 0 i = i"
| "find_client me cs (Suc k) i =
     (if pid (cs i) \<noteq> my_pid me \<or> host_name (cs i) \<noteq> my_host_name me
      then find_client me cs k (Suc i)
      else i)"

text \<open>The first statement of \<^verbatim>\<open>request_lock\<close>: \<^verbatim>\<open>bool is_granted = !granted_state ||
  (!is_write_lock && !granted_state->is_write_lock)\<close>.\<close>

definition grant_now :: "bool \<Rightarrow> world \<Rightarrow> bool" where
  "grant_now want_write w =
     (case granted_state w of
        None \<Rightarrow> True
      | Some g \<Rightarrow> \<not> want_write \<and> \<not> is_write_lock (client_states w g))"

text \<open>\<^verbatim>\<open>request_lock\<close>; the result \<^verbatim>\<open>Inr b\<close> is the C result 1 or 0.\<close>

definition request_lock ::
  "identity \<Rightarrow> bool \<Rightarrow> int \<Rightarrow> dump_io \<Rightarrow> world \<Rightarrow> (failure + bool) \<times> world" where
  "request_lock me want_write now io w =
     (let grant = grant_now want_write w;
          cs = client_states w;
          end_state = n_client_states w;
          i = find_client me cs end_state 0
      in
      if i \<noteq> end_state \<and> (is_granted (cs i) \<or> is_write_lock (cs i) \<noteq> want_write)
      then (Inl ReturnedError, w\<lparr>errno := ENOTSUP\<rparr>)
      else
        let w1 =
          (if i = end_state then
             w\<lparr>client_states :=
                  cs(i := \<lparr>is_write_lock = want_write, is_granted = grant, time = now,
                           host_name = my_host_name me, pid = my_pid me\<rparr>),
               client_states_changed := True,
               n_client_states := Suc end_state\<rparr>
           else
             let w' = (if grant then
                         w\<lparr>client_states := cs(i := (cs i)\<lparr>is_granted := True\<rparr>),
                           client_states_changed := True\<rparr>
                       else w);
                 cs' = client_states w'
             in if time (cs' i) \<noteq> now then
                  w'\<lparr>client_states := cs'(i := (cs' i)\<lparr>time := now\<rparr>),
                     client_states_changed := True\<rparr>
                else w')
        in
        if client_states_changed w1 then
          (case dump_client_states io w1 of
             (r, w2) \<Rightarrow> if r < 0 then (Inl ReturnedError, w2) else (Inr grant, w2))
        else (Inr grant, w1))"

text \<open>\<^verbatim>\<open>memmove(client_state, client_state + 1, (end_state - client_state - 1) *
  sizeof(ClientState))\<close> on the array, for the slot \<^verbatim>\<open>i\<close> and the end \<^verbatim>\<open>n\<close>.\<close>

definition memmove_down :: "nat \<Rightarrow> nat \<Rightarrow> (nat \<Rightarrow> ClientState) \<Rightarrow> (nat \<Rightarrow> ClientState)" where
  "memmove_down i n cs = (\<lambda>j. if i \<le> j \<and> j < n - 1 then cs (Suc j) else cs j)"

text \<open>\<^verbatim>\<open>remove_lock\<close>. The function does not change \<^verbatim>\<open>n_client_states\<close>.\<close>

definition remove_lock :: "identity \<Rightarrow> dump_io \<Rightarrow> world \<Rightarrow> (failure + unit) \<times> world" where
  "remove_lock me io w =
     (let cs = client_states w;
          end_state = n_client_states w;
          i = find_client me cs end_state 0
      in
      if i \<noteq> end_state \<and> \<not> is_granted (cs i) then (Inl AssertFailed, w)
      else if i = end_state then (Inl ReturnedError, w\<lparr>errno := ENOTSUP\<rparr>)
      else
        (case dump_client_states io (w\<lparr>client_states := memmove_down i end_state cs\<rparr>) of
           (r, w2) \<Rightarrow> if r < 0 then (Inl ReturnedError, w2) else (Inr (), w2)))"

subsection \<open>The mutex: \<^verbatim>\<open>exclusive_lock\<close> and \<^verbatim>\<open>exclusive_unlock\<close>\<close>

text \<open>The two paths \<^verbatim>\<open>format_path\<close> builds.\<close>

definition private_path :: "Narwhal \<Rightarrow> identity \<Rightarrow> string" where
  "private_path narwhal me = lockdir narwhal @ ''/'' @ my_host_name me @ ''.'' @ my_pid me"

definition lockfile_path :: "Narwhal \<Rightarrow> string" where
  "lockfile_path narwhal = lockdir narwhal @ ''/lockfile''"

text \<open>The loop of \<^verbatim>\<open>exclusive_lock\<close>, one list element per attempt. It ends when
  \<^verbatim>\<open>link\<close> succeeds or the clock has passed the deadline; \<^verbatim>\<open>None\<close> says it is
  still spinning when the list is used up.\<close>

fun spin ::
  "Narwhal \<Rightarrow> identity \<Rightarrow> int \<Rightarrow> (syscall_io \<times> int) list \<Rightarrow> world
     \<Rightarrow> ((failure + unit) \<times> world) option" where
  "spin narwhal me last_reasonable_time [] w = None"
| "spin narwhal me last_reasonable_time ((l, t) # rest) w =
     (let w1 = w\<lparr>lock_calls :=
                   lock_calls w @ [Link (private_path narwhal me) (lockfile_path narwhal)]\<rparr>
      in case l of
           None \<Rightarrow> Some (Inr (), w1)
         | Some e \<Rightarrow>
             if t > last_reasonable_time
             then Some (Inl ReturnedError, w1\<lparr>errno := ETIMEDOUT\<rparr>)
             else spin narwhal me last_reasonable_time rest (w1\<lparr>errno := e\<rparr>))"

definition exclusive_lock ::
  "Narwhal \<Rightarrow> identity \<Rightarrow> round_io \<Rightarrow> world \<Rightarrow> ((failure + unit) \<times> world) option" where
  "exclusive_lock narwhal me io w =
     (let w1 = w\<lparr>lock_calls := lock_calls w @ [Creat (private_path narwhal me)]\<rparr>
      in case creat_io io of
           Some e \<Rightarrow> Some (Inl ReturnedError, w1\<lparr>errno := e\<rparr>)
         | None \<Rightarrow> spin narwhal me (lock_clock io + timeout_sec narwhal) (link_io io) w1)"

definition unlink :: "string \<Rightarrow> syscall_io \<Rightarrow> world \<Rightarrow> int \<times> world" where
  "unlink path io w =
     (let w1 = w\<lparr>lock_calls := lock_calls w @ [Unlink path]\<rparr>
      in case io of None \<Rightarrow> (0, w1) | Some e \<Rightarrow> (- 1, w1\<lparr>errno := e\<rparr>))"

definition exclusive_unlock ::
  "Narwhal \<Rightarrow> identity \<Rightarrow> syscall_io \<Rightarrow> syscall_io \<Rightarrow> world \<Rightarrow> int \<times> world" where
  "exclusive_unlock narwhal me io1 io2 w =
     (let base_errno = errno w;
          w0 = w\<lparr>errno := 0\<rparr>;
          (lockfile_result, w1) = unlink (lockfile_path narwhal) io1 w0;
          (private_result, w2) = unlink (private_path narwhal me) io2 w1;
          w3 = (if base_errno \<noteq> 0 then w2\<lparr>errno := base_errno\<rparr> else w2)
      in (if lockfile_result < private_result then lockfile_result else private_result, w3))"

subsection \<open>The public operations\<close>

text \<open>\<^verbatim>\<open>load_client_states(narwhal) < 0 ? -1 : request_lock(...)\<close>, and the same with
  \<^verbatim>\<open>remove_lock\<close>.\<close>

definition load_and_request ::
  "Narwhal \<Rightarrow> identity \<Rightarrow> bool \<Rightarrow> round_io \<Rightarrow> world \<Rightarrow> (failure + bool) \<times> world" where
  "load_and_request narwhal me want_write io w =
     (case load_client_states narwhal (load_io io) (parse_clock io) w of
        (Inl f, w1) \<Rightarrow> (Inl f, w1)
      | (Inr _, w1) \<Rightarrow> request_lock me want_write (request_clock io) (dump_io io) w1)"

definition load_and_remove ::
  "Narwhal \<Rightarrow> identity \<Rightarrow> round_io \<Rightarrow> world \<Rightarrow> (failure + unit) \<times> world" where
  "load_and_remove narwhal me io w =
     (case load_client_states narwhal (load_io io) (parse_clock io) w of
        (Inl f, w1) \<Rightarrow> (Inl f, w1)
      | (Inr _, w1) \<Rightarrow> remove_lock me (dump_io io) w1)"

text \<open>The \<^verbatim>\<open>for (;;)\<close> loop of \<^verbatim>\<open>narwhal_read_lock\<close> and \<^verbatim>\<open>narwhal_write_lock\<close>,
  which differ only in the argument of \<^verbatim>\<open>request_lock\<close>; one list element per round.
  \<^verbatim>\<open>None\<close> says the call has not returned when the list is used up. A failed
  \<^verbatim>\<open>assert\<close> ends the process on the spot, the lock file still in place.\<close>

fun lock_rounds ::
  "Narwhal \<Rightarrow> identity \<Rightarrow> bool \<Rightarrow> round_io list \<Rightarrow> world
     \<Rightarrow> ((failure + unit) \<times> world) option" where
  "lock_rounds narwhal me want_write [] w = None"
| "lock_rounds narwhal me want_write (io # ios) w =
     (case exclusive_lock narwhal me io w of
        None \<Rightarrow> None
      | Some (Inl f, w1) \<Rightarrow> Some (Inl f, w1)
      | Some (Inr _, w1) \<Rightarrow>
          (case load_and_request narwhal me want_write io w1 of
             (Inl AssertFailed, w2) \<Rightarrow> Some (Inl AssertFailed, w2)
           | (result, w2) \<Rightarrow>
               (case exclusive_unlock narwhal me (unlink_lockfile_io io)
                       (unlink_private_io io) w2 of
                  (u, w3) \<Rightarrow>
                    if u < 0 \<or> result = Inl ReturnedError then Some (Inl ReturnedError, w3)
                    else if result = Inr True then Some (Inr (), w3)
                    else lock_rounds narwhal me want_write ios w3)))"

definition narwhal_read_lock ::
  "Narwhal \<Rightarrow> identity \<Rightarrow> round_io list \<Rightarrow> world \<Rightarrow> ((failure + unit) \<times> world) option" where
  "narwhal_read_lock narwhal me ios w = lock_rounds narwhal me False ios w"

definition narwhal_write_lock ::
  "Narwhal \<Rightarrow> identity \<Rightarrow> round_io list \<Rightarrow> world \<Rightarrow> ((failure + unit) \<times> world) option" where
  "narwhal_write_lock narwhal me ios w = lock_rounds narwhal me True ios w"

text \<open>\<^verbatim>\<open>narwhal_unlock\<close>: its loop returns in the first round.\<close>

definition narwhal_unlock ::
  "Narwhal \<Rightarrow> identity \<Rightarrow> round_io \<Rightarrow> world \<Rightarrow> ((failure + unit) \<times> world) option" where
  "narwhal_unlock narwhal me io w =
     (case exclusive_lock narwhal me io w of
        None \<Rightarrow> None
      | Some (Inl f, w1) \<Rightarrow> Some (Inl f, w1)
      | Some (Inr _, w1) \<Rightarrow>
          (case load_and_remove narwhal me io w1 of
             (Inl AssertFailed, w2) \<Rightarrow> Some (Inl AssertFailed, w2)
           | (result, w2) \<Rightarrow>
               (case exclusive_unlock narwhal me (unlink_lockfile_io io)
                       (unlink_private_io io) w2 of
                  (u, w3) \<Rightarrow>
                    if u < 0 \<or> result = Inl ReturnedError then Some (Inl ReturnedError, w3)
                    else Some (Inr (), w3))))"

subsection \<open>Auxiliary notions for the proofs\<close>

text \<open>A field of a line: not empty, and free of the three bytes the parser splits at.
  An entry whose two strings are such fields is one the parser reads back.\<close>

definition field_ok :: "string \<Rightarrow> bool" where
  "field_ok s = (s \<noteq> [] \<and> (\<forall>c\<in>set s. c \<noteq> CHR '' '' \<and> c \<noteq> CHR 0x0A \<and> c \<noteq> CHR 0x00))"

definition entry_ok :: "ClientState \<Rightarrow> bool" where
  "entry_ok c = (field_ok (host_name c) \<and> field_ok (pid c))"

text \<open>The line of an entry after the first loop of the parser.\<close>

definition nul_line :: "ClientState \<Rightarrow> string" where
  "nul_line c =
     host_name c @ CHR 0x00 # pid c @ CHR 0x00
       # (if is_write_lock c then CHR ''W'' else CHR ''R'') # CHR 0x00
       # (if is_granted c then CHR ''G'' else CHR ''P'') # CHR 0x00
       # lld (time c) @ [CHR 0x00]"

text \<open>What the five rounds of the second loop over one line do together: the entry
  is written to the slot \<^verbatim>\<open>nx\<close>, a granted status points \<^verbatim>\<open>granted_state\<close> at that
  slot whatever the time is, and the slot is kept only when the entry is fresh.\<close>

definition keep_entry :: "int \<Rightarrow> ClientState \<Rightarrow> nat \<times> world \<Rightarrow> nat \<times> world" where
  "keep_entry ff c a =
     (case a of (nx, w) \<Rightarrow>
       (if ff \<le> time c then Suc nx else nx,
        w\<lparr>client_states := (client_states w)(nx := c),
          granted_state := (if is_granted c then Some nx else granted_state w),
          client_states_changed := (client_states_changed w \<or> time c < ff)\<rparr>))"

definition set_slot :: "nat \<Rightarrow> (ClientState \<Rightarrow> ClientState) \<Rightarrow> world \<Rightarrow> world" where
  "set_slot nx f w = w\<lparr>client_states := (client_states w)(nx := f (client_states w nx))\<rparr>"

text \<open>The test of the search loop: the entry is the caller's.\<close>

definition owned_by :: "identity \<Rightarrow> ClientState \<Rightarrow> bool" where
  "owned_by me c = (pid c = my_pid me \<and> host_name c = my_host_name me)"

text \<open>Parsing a file and serializing the result: one load followed by one dump,
  both without a failing system call; the result is the file afterwards.\<close>

definition load_then_dump :: "Narwhal \<Rightarrow> int \<Rightarrow> world \<Rightarrow> (failure + string)" where
  "load_then_dump narwhal now w =
     (case load_client_states narwhal LoadOk now w of
        (Inl f, w1) \<Rightarrow> Inl f
      | (Inr _, w1) \<Rightarrow> Inr (state_file (snd (dump_client_states DumpOk w1))))"

subsection \<open>A concrete setting\<close>

text \<open>The setting of the scenarios: a lock directory with ten seconds of timeout (and
  the same with sixty), three processes on \<^verbatim>\<open>host1\<close>, a process that has made no call
  yet and finds the given state file (of the zero bytes \<^verbatim>\<open>init()\<close> allocates for
  \<^verbatim>\<open>state_text\<close> the first two are kept; the array holds some entry in every slot),
  and a round in which every system call succeeds at once and the clock reads \<^verbatim>\<open>t\<close>
  throughout.\<close>

definition scenario :: Narwhal where
  "scenario = \<lparr>lockdir = ''locks'', timeout_sec = 10\<rparr>"

definition proc_A :: identity where
  "proc_A = \<lparr>my_host_name = ''host1'', my_pid = ''100''\<rparr>"

definition proc_B :: identity where
  "proc_B = \<lparr>my_host_name = ''host1'', my_pid = ''200''\<rparr>"

definition proc_C :: identity where
  "proc_C = \<lparr>my_host_name = ''host1'', my_pid = ''300''\<rparr>"

definition fresh_process :: "string \<Rightarrow> world" where
  "fresh_process file =
     \<lparr>state_text = [CHR 0x00, CHR 0x00],
      client_states = (\<lambda>_. \<lparr>is_write_lock = False, is_granted = False, time = 0,
                               host_name = [], pid = []\<rparr>),
      n_client_states = 0, granted_state = None, client_states_changed = False,
      errno = 0, state_file = file, lock_calls = []\<rparr>"

definition patient :: Narwhal where
  "patient = \<lparr>lockdir = ''locks'', timeout_sec = 60\<rparr>"

definition calm_round :: "int \<Rightarrow> round_io" where
  "calm_round t =
     \<lparr>creat_io = None, lock_clock = t, link_io = [(None, t)], load_io = LoadOk,
      parse_clock = t, request_clock = t, dump_io = DumpOk,
      unlink_lockfile_io = None, unlink_private_io = None\<rparr>"

text \<open>Three entries: a granted read of \<^verbatim>\<open>host1 100\<close> written at time 0, a pending
  write of \<^verbatim>\<open>host1 200\<close> written at time 95, and an entry whose pid holds a space.\<close>

definition entry_A_stale :: ClientState where
  "entry_A_stale = \<lparr>is_write_lock = False, is_granted = True, time = 0,
       host_name = ''host1'', pid = ''100''\<rparr>"

definition entry_B_fresh :: ClientState where
  "entry_B_fresh = \<lparr>is_write_lock = True, is_granted = False, time = 95,
       host_name = ''host1'', pid = ''200''\<rparr>"

definition entry_odd_pid :: ClientState where
  "entry_odd_pid = \<lparr>is_write_lock = False, is_granted = True, time = 95,
       host_name = ''host1'', pid = ''1 2''\<rparr>"

text \<open>The world of a process that finds the given file after a successful
  \<^verbatim>\<open>exclusive_lock\<close>, and after a successful load at the given time.\<close>

definition locked :: "identity \<Rightarrow> string \<Rightarrow> world" where
  "locked me file =
     (fresh_process file)\<lparr>lock_calls :=
        [Creat (private_path scenario me), Link (private_path scenario me) (lockfile_path scenario)]\<rparr>"

definition loaded_after_lock :: "identity \<Rightarrow> string \<Rightarrow> int \<Rightarrow> world" where
  "loaded_after_lock me file now =
     snd (load_client_states scenario LoadOk now (locked me file))"

definition loaded :: "string \<Rightarrow> int \<Rightarrow> world" where
  "loaded file now = snd (load_client_states scenario LoadOk now (fresh_process file))"

text \<open>A round in which the lock file is taken: the one \<^verbatim>\<open>link\<close> of the list fails,
  and the clock reads \<^verbatim>\<open>t'\<close> after the sleep.\<close>

definition busy_round :: "int \<Rightarrow> int \<Rightarrow> round_io" where
  "busy_round t t' = (calm_round t)\<lparr>link_io := [(Some EEXIST, t')]\<rparr>"

text \<open>What a caller and the other processes see of a call: whether it returned, its
  result, and the state file afterwards.\<close>

definition outcome ::
  "((failure + unit) \<times> world) option \<Rightarrow> ((failure + unit) \<times> string) option" where
  "outcome r = map_option (\<lambda>(x, w). (x, state_file w)) r"

text \<open>The next call of the same process: it starts in the world the previous call
  left, provided that call returned.\<close>

definition next_call ::
  "((failure + unit) \<times> world) option \<Rightarrow> (world \<Rightarrow> ((failure + unit) \<times> world) option)
     \<Rightarrow> ((failure + unit) \<times> world) option" where
  "next_call r f =
     (case r of
        None \<Rightarrow> None
      | Some (x, w) \<Rightarrow> if x = Inl AssertFailed then None else f w)"

text \<open>The invariants of the data model, for the entries of a state file: no two
  entries have the same owner; all granted entries have the same mode; a granted
  write is the only granted entry.\<close>

definition owner :: "ClientState \<Rightarrow> string \<times> string" where
  "owner c = (host_name c, pid c)"

definition lock_inv :: "ClientState list \<Rightarrow> bool" where
  "lock_inv cs =
     (distinct (map owner cs)
      \<and> (\<forall>a\<in>set cs. \<forall>b\<in>set cs.
            is_granted a \<longrightarrow> is_granted b \<longrightarrow> is_write_lock a = is_write_lock b)
      \<and> (\<forall>a\<in>set cs. \<forall>b\<in>set cs.
            is_granted a \<longrightarrow> is_write_lock a \<longrightarrow> is_granted b \<longrightarrow> owner a = owner b))"

text \<open>The owners of the entries in memory, in their order.\<close>

definition owners :: "world \<Rightarrow> (string \<times> string) list" where
  "owners w = map owner (entries w)"

text \<open>The decision of the request engine in the words of the specification, from
  the entries kept by the load: granted when none of them is granted, or when the
  request is for reading and the granted ones are read locks. It is compared with
  \<^verbatim>\<open>grant_now\<close>, which is what \<^verbatim>\<open>request_lock\<close> computes from \<^verbatim>\<open>granted_state\<close>.\<close>

definition spec_grant_now :: "bool \<Rightarrow> ClientState list \<Rightarrow> bool" where
  "spec_grant_now want_write cs =
     (filter is_granted cs = []
      \<or> (\<not> want_write \<and> list_all (\<lambda>c. \<not> is_write_lock c) (filter is_granted cs)))"

section \<open>Properties\<close>

subsection \<open>Decimal numbers are read back\<close>

lemma decimal_nonempty: "decimal n \<noteq> []"
  by (subst decimal.simps) simp

lemma of_char_digit: "d < 10 \<Longrightarrow> (of_char (char_of (d + 48 :: nat)) :: nat) = d + 48"
  by (simp add: of_char_of)

lemma of_char_digit_int: "d < 10 \<Longrightarrow> (of_char (char_of (d + 48 :: nat)) :: int) = int d + 48"
proof -
  assume d: "d < 10"
  have "(of_char (char_of (d + 48 :: nat)) :: int) = int (of_char (char_of (d + 48 :: nat)))"
    by (simp only: of_nat_of_char)
  then show ?thesis using of_char_digit [OF d] by simp
qed

lemma isdigit_char_of: "d < 10 \<Longrightarrow> isdigit (char_of (d + 48 :: nat))"
  by (simp add: isdigit_def of_char_digit)

lemma decimal_digits: "c \<in> set (decimal n) \<Longrightarrow> isdigit c"
proof (induction n arbitrary: c rule: decimal.induct)
  case (1 n)
  show ?case
  proof (cases "n < 10")
    case True
    with "1.prems" show ?thesis
      by (subst (asm) decimal.simps) (simp add: isdigit_char_of)
  next
    case False
    with "1.prems" have "c \<in> set (decimal (n div 10)) \<or> c = char_of (n mod 10 + 48)"
      by (subst (asm) decimal.simps) auto
    then show ?thesis
      using "1.IH" [OF False] by (auto simp: isdigit_char_of)
  qed
qed

lemma strtoll_digits_append:
  "\<forall>c\<in>set ds. isdigit c \<Longrightarrow> strtoll_digits a (ds @ r) = strtoll_digits (strtoll_digits a ds) r"
  by (induction ds arbitrary: a) auto

lemma strtoll_digits_decimal: "strtoll_digits 0 (decimal n) = int n"
proof (induction n rule: decimal.induct)
  case (1 n)
  show ?case
  proof (cases "n < 10")
    case True
    then show ?thesis
      by (subst decimal.simps) (simp add: isdigit_char_of of_char_digit_int)
  next
    case False
    have "strtoll_digits 0 (decimal n)
          = strtoll_digits 0 (decimal (n div 10) @ [char_of (n mod 10 + 48)])"
      using False by (subst decimal.simps) simp
    also have "\<dots> = strtoll_digits (int (n div 10)) [char_of (n mod 10 + 48)]"
      using "1.IH" [OF False] by (simp add: strtoll_digits_append decimal_digits)
    also have "\<dots> = 10 * int (n div 10) + int (n mod 10)"
      by (simp add: isdigit_char_of of_char_digit_int)
    also have "\<dots> = int n"
      by presburger
    finally show ?thesis .
  qed
qed

lemma isdigit_not_space: "isdigit c \<Longrightarrow> \<not> isspace c"
  by (auto simp: isdigit_def isspace_def)

lemma isdigit_not_sign: "isdigit c \<Longrightarrow> c \<noteq> CHR ''-'' \<and> c \<noteq> CHR ''+''"
  by (auto simp: isdigit_def)

lemma atoll_decimal: "atoll (decimal n) = int n"
proof -
  obtain c cs where cs: "decimal n = c # cs"
    using decimal_nonempty [of n] by (cases "decimal n") auto
  then have d: "isdigit c" using decimal_digits [of c n] by simp
  show ?thesis
    using strtoll_digits_decimal [of n] isdigit_not_space [OF d] isdigit_not_sign [OF d]
    by (simp add: atoll_def cs)
qed

lemma atoll_lld: "atoll (lld t) = t"
proof (cases "t < 0")
  case True
  have "\<not> isspace CHR ''-''" by (simp add: isspace_def)
  then show ?thesis
    using True strtoll_digits_decimal [of "nat (- t)"] by (simp add: atoll_def lld_def)
next
  case False
  then show ?thesis by (simp add: lld_def atoll_decimal)
qed

lemma isdigit_not_sep: "isdigit c \<Longrightarrow> c \<noteq> CHR '' '' \<and> c \<noteq> CHR 0x0A \<and> c \<noteq> CHR 0x00"
  by (auto simp: isdigit_def)

lemma field_ok_decimal: "field_ok (decimal n)"
proof -
  have "c \<noteq> CHR '' '' \<and> c \<noteq> CHR 0x0A \<and> c \<noteq> CHR 0x00" if "c \<in> set (decimal n)" for c
    using decimal_digits [OF that] by (rule isdigit_not_sep)
  then show ?thesis
    using decimal_nonempty [of n] unfolding field_ok_def by blast
qed

lemma field_ok_lld: "field_ok (lld t)"
  using field_ok_decimal [of "nat t"] field_ok_decimal [of "nat (- t)"]
  by (simp add: field_ok_def lld_def)

subsection \<open>The parser on a file the library wrote\<close>

lemma nul_separators_plain:
  "\<forall>c\<in>set s. c \<noteq> CHR '' '' \<and> c \<noteq> CHR 0x0A \<and> c \<noteq> CHR 0x00 \<Longrightarrow>
   nul_separators (s @ r) = s @ nul_separators r"
  by (induction s) simp_all

lemma nul_separators_field:
  assumes "field_ok s" and "c = CHR '' '' \<or> c = CHR 0x0A"
  shows "nul_separators (s @ c # r) = s @ CHR 0x00 # nul_separators r"
proof -
  have "nul_separators (s @ c # r) = s @ nul_separators (c # r)"
    using assms(1) by (intro nul_separators_plain) (simp add: field_ok_def)
  also have "nul_separators (c # r) = CHR 0x00 # nul_separators r"
    using assms(2) by auto
  finally show ?thesis .
qed

lemma c_string_field: "field_ok s \<Longrightarrow> c_string (s @ CHR 0x00 # r) = s"
proof -
  have "\<forall>c\<in>set s. c \<noteq> CHR 0x00 \<Longrightarrow> c_string (s @ CHR 0x00 # r) = s"
    by (induction s) auto
  then show "field_ok s \<Longrightarrow> c_string (s @ CHR 0x00 # r) = s"
    by (simp add: field_ok_def)
qed

lemma skip_string_field: "field_ok s \<Longrightarrow> skip_string (s @ CHR 0x00 # r) = r"
proof -
  have "\<forall>c\<in>set s. c \<noteq> CHR 0x00 \<Longrightarrow> skip_string (s @ CHR 0x00 # r) = r"
    by (induction s) auto
  then show "field_ok s \<Longrightarrow> skip_string (s @ CHR 0x00 # r) = r"
    by (simp add: field_ok_def)
qed

lemma parse_loop_field:
  assumes "field_ok s"
  shows "parse_loop ff (s @ CHR 0x00 # r) fi nx w =
     (case parse_field ff s (fi mod 5) nx w of
        Inl f \<Rightarrow> Inl f
      | Inr (nx', w') \<Rightarrow> parse_loop ff r (Suc fi) nx' w')"
proof -
  obtain c cs where s: "s = c # cs" and c: "c \<noteq> CHR 0x00"
    using assms by (cases s) (auto simp: field_ok_def)
  have "\<not> (s @ CHR 0x00 # r = [] \<or> hd (s @ CHR 0x00 # r) = CHR 0x00)"
    using s c by simp
  then show ?thesis
    by (subst parse_loop.simps) (simp only: if_False c_string_field [OF assms] skip_string_field [OF assms])
qed

lemma parse_loop_end: "parse_loop ff (CHR 0x00 # r) fi nx w = Inr (w\<lparr>n_client_states := nx\<rparr>)"
  by (subst parse_loop.simps) simp

lemma nul_separators_line:
  assumes "entry_ok c"
  shows "nul_separators (state_line c @ r) = nul_line c @ nul_separators r"
proof -
  have h: "field_ok (host_name c)" and p: "field_ok (pid c)"
    using assms by (simp_all add: entry_ok_def)
  have m: "field_ok [if is_write_lock c then CHR ''W'' else CHR ''R'']"
    and g: "field_ok [if is_granted c then CHR ''G'' else CHR ''P'']"
    by (simp_all add: field_ok_def)
  have "nul_separators (state_line c @ r)
        = nul_separators (host_name c @ CHR '' '' # pid c @ CHR '' ''
            # [if is_write_lock c then CHR ''W'' else CHR ''R''] @ CHR '' ''
            # [if is_granted c then CHR ''G'' else CHR ''P''] @ CHR '' ''
            # lld (time c) @ CHR 0x0A # r)"
    by (simp add: state_line_def)
  also have "\<dots> = nul_line c @ nul_separators r"
    by (simp only: nul_separators_field [OF h] nul_separators_field [OF p]
          nul_separators_field [OF m] nul_separators_field [OF g]
          nul_separators_field [OF field_ok_lld] simp_thms)
       (simp add: nul_line_def)
  finally show ?thesis .
qed

lemma nul_separators_serialize:
  "\<forall>c\<in>set cs. entry_ok c \<Longrightarrow>
   nul_separators (serialize cs @ r) = concat (map nul_line cs) @ nul_separators r"
proof (induction cs)
  case Nil
  then show ?case by (simp add: serialize_def)
next
  case (Cons c cs)
  have "nul_separators (serialize (c # cs) @ r) = nul_separators (state_line c @ (serialize cs @ r))"
    by (simp add: serialize_def)
  also have "\<dots> = nul_line c @ nul_separators (serialize cs @ r)"
    using Cons.prems by (simp add: nul_separators_line)
  finally show ?case using Cons by simp
qed

lemma all_fields_written:
  "(x :: ClientState)\<lparr>host_name := host_name c, pid := pid c, is_write_lock := is_write_lock c,
      is_granted := is_granted c, time := time c\<rparr> = c"
  by simp

lemma parse_field_host:
  "parse_field ff tok 0 nx w = Inr (nx, set_slot nx (host_name_update (\<lambda>_. tok)) w)"
  by (simp add: parse_field_def set_slot_def Let_def)

lemma parse_field_pid:
  "parse_field ff tok (Suc 0) nx w = Inr (nx, set_slot nx (pid_update (\<lambda>_. tok)) w)"
  by (simp add: parse_field_def set_slot_def Let_def)

lemma parse_field_mode:
  "parse_field ff [if b then CHR ''W'' else CHR ''R''] 2 nx w =
     Inr (nx, set_slot nx (is_write_lock_update (\<lambda>_. b)) w)"
  by (simp add: parse_field_def set_slot_def Let_def)

lemma parse_field_status:
  "parse_field ff [if b then CHR ''G'' else CHR ''P''] 3 nx w =
     Inr (nx, (set_slot nx (is_granted_update (\<lambda>_. b)) w)
                \<lparr>granted_state := (if b then Some nx else granted_state w)\<rparr>)"
  by (simp add: parse_field_def set_slot_def Let_def)

lemma parse_field_time:
  "parse_field ff (lld t) 4 nx w =
     Inr (if ff \<le> t then Suc nx else nx,
          (set_slot nx (time_update (\<lambda>_. t)) w)
            \<lparr>client_states_changed := (client_states_changed w \<or> t < ff)\<rparr>)"
  by (auto simp add: parse_field_def set_slot_def Let_def atoll_lld)

lemma slot_filled:
  "(set_slot nx (time_update (\<lambda>_. time c))
     ((set_slot nx (is_granted_update (\<lambda>_. is_granted c))
        (set_slot nx (is_write_lock_update (\<lambda>_. is_write_lock c))
          (set_slot nx (pid_update (\<lambda>_. pid c))
            (set_slot nx (host_name_update (\<lambda>_. host_name c)) w))))
       \<lparr>granted_state := g\<rparr>))\<lparr>client_states_changed := ch\<rparr>
   = w\<lparr>client_states := (client_states w)(nx := c), granted_state := g,
        client_states_changed := ch\<rparr>"
  by (simp add: set_slot_def all_fields_written)

lemma parse_loop_line:
  assumes ok: "entry_ok c" and fi: "fi mod 5 = 0"
  shows "parse_loop ff (nul_line c @ r) fi nx w =
         (case keep_entry ff c (nx, w) of (nx', w') \<Rightarrow> parse_loop ff r (fi + 5) nx' w')"
proof -
  have h: "field_ok (host_name c)" and p: "field_ok (pid c)"
    using ok by (simp_all add: entry_ok_def)
  define mc where "mc = (if is_write_lock c then CHR ''W'' else CHR ''R'')"
  define sc where "sc = (if is_granted c then CHR ''G'' else CHR ''P'')"
  have m: "field_ok [mc]" and g: "field_ok [sc]"
    by (simp_all add: field_ok_def mc_def sc_def)
  have f1: "Suc fi mod 5 = Suc 0" and f2: "Suc (Suc fi) mod 5 = 2"
    and f3: "Suc (Suc (Suc fi)) mod 5 = 3" and f4: "Suc (Suc (Suc (Suc fi))) mod 5 = 4"
    and f5: "Suc (Suc (Suc (Suc (Suc fi)))) = fi + 5"
    using fi by presburger+
  define r3 where "r3 = lld (time c) @ CHR 0x00 # r"
  define r2 where "r2 = [sc] @ CHR 0x00 # r3"
  define r1 where "r1 = [mc] @ CHR 0x00 # r2"
  define r0 where "r0 = pid c @ CHR 0x00 # r1"
  define w1 where "w1 = set_slot nx (host_name_update (\<lambda>_. host_name c)) w"
  define w2 where "w2 = set_slot nx (pid_update (\<lambda>_. pid c)) w1"
  define w3 where "w3 = set_slot nx (is_write_lock_update (\<lambda>_. is_write_lock c)) w2"
  define w4 where "w4 = (set_slot nx (is_granted_update (\<lambda>_. is_granted c)) w3)
                \<lparr>granted_state := (if is_granted c then Some nx else granted_state w3)\<rparr>"
  define w5 where "w5 = (set_slot nx (time_update (\<lambda>_. time c)) w4)
            \<lparr>client_states_changed := (client_states_changed w4 \<or> time c < ff)\<rparr>"
  have "nul_line c @ r = host_name c @ CHR 0x00 # r0"
    by (simp add: nul_line_def r0_def r1_def r2_def r3_def mc_def sc_def)
  then have "parse_loop ff (nul_line c @ r) fi nx w = parse_loop ff r0 (Suc fi) nx w1"
    by (simp add: parse_loop_field [OF h] fi parse_field_host w1_def)
  also have "\<dots> = parse_loop ff r1 (Suc (Suc fi)) nx w2"
    unfolding r0_def by (simp add: parse_loop_field [OF p] f1 parse_field_pid w2_def)
  also have "\<dots> = parse_loop ff r2 (Suc (Suc (Suc fi))) nx w3"
    unfolding r1_def mc_def
    by (simp only: parse_loop_field [OF m [unfolded mc_def]] f2 parse_field_mode w3_def
          sum.case prod.case)
  also have "\<dots> = parse_loop ff r3 (Suc (Suc (Suc (Suc fi)))) nx w4"
    unfolding r2_def sc_def
    by (simp only: parse_loop_field [OF g [unfolded sc_def]] f3 parse_field_status w4_def
          sum.case prod.case)
  also have "\<dots> = parse_loop ff r (fi + 5) (if ff \<le> time c then Suc nx else nx) w5"
    unfolding r3_def
    by (simp only: parse_loop_field [OF field_ok_lld] f4 f5 parse_field_time w5_def
          sum.case prod.case)
  also have "w5 = w\<lparr>client_states := (client_states w)(nx := c),
          granted_state := (if is_granted c then Some nx else granted_state w),
          client_states_changed := (client_states_changed w \<or> time c < ff)\<rparr>"
  proof -
    have gs: "granted_state w3 = granted_state w"
      by (simp add: w3_def w2_def w1_def set_slot_def)
    have ch: "client_states_changed w4 = client_states_changed w"
      by (simp add: w4_def w3_def w2_def w1_def set_slot_def)
    show ?thesis
      unfolding w5_def ch unfolding w4_def gs unfolding w3_def w2_def w1_def
      by (rule slot_filled)
  qed
  finally show ?thesis
    by (simp add: keep_entry_def)
qed

lemma parse_loop_lines:
  assumes "\<forall>c\<in>set cs. entry_ok c" and "fi mod 5 = 0"
  shows "parse_loop ff (concat (map nul_line cs) @ CHR 0x00 # r) fi nx w =
         (case foldl (\<lambda>a c. keep_entry ff c a) (nx, w) cs of
            (nx', w') \<Rightarrow> Inr (w'\<lparr>n_client_states := nx'\<rparr>))"
  using assms
proof (induction cs arbitrary: fi nx w)
  case Nil
  then show ?case by (simp add: parse_loop_end)
next
  case (Cons c cs)
  have ok: "entry_ok c" and oks: "\<forall>c\<in>set cs. entry_ok c"
    using Cons.prems(1) by simp_all
  have fi5: "(fi + 5) mod 5 = 0" using Cons.prems(2) by presburger
  obtain nx' w' where k: "keep_entry ff c (nx, w) = (nx', w')"
    by (cases "keep_entry ff c (nx, w)")
  have "parse_loop ff (concat (map nul_line (c # cs)) @ CHR 0x00 # r) fi nx w
        = parse_loop ff (nul_line c @ (concat (map nul_line cs) @ CHR 0x00 # r)) fi nx w"
    by simp
  also have "\<dots> = parse_loop ff (concat (map nul_line cs) @ CHR 0x00 # r) (fi + 5) nx' w'"
    by (simp only: parse_loop_line [OF ok Cons.prems(2)] k prod.case)
  also have "\<dots> = (case foldl (\<lambda>a c. keep_entry ff c a) (nx', w') cs of
            (nx'', w'') \<Rightarrow> Inr (w''\<lparr>n_client_states := nx''\<rparr>))"
    by (rule Cons.IH [OF oks fi5])
  finally show ?case by (simp add: k)
qed

lemma keep_entries:
  assumes "foldl (\<lambda>a c. keep_entry ff c a) (nx, w) cs = (nx', w')"
  shows "nx' = nx + length (filter (\<lambda>c. ff \<le> time c) cs)
       \<and> map (client_states w') [nx ..< nx'] = filter (\<lambda>c. ff \<le> time c) cs
       \<and> (\<forall>i<nx. client_states w' i = client_states w i)
       \<and> client_states_changed w' = (client_states_changed w \<or> (\<exists>c\<in>set cs. time c < ff))"
  using assms
proof (induction cs arbitrary: nx w)
  case Nil
  then show ?case by simp
next
  case (Cons c cs)
  define w1 where "w1 = w\<lparr>client_states := (client_states w)(nx := c),
          granted_state := (if is_granted c then Some nx else granted_state w),
          client_states_changed := (client_states_changed w \<or> time c < ff)\<rparr>"
  show ?case
  proof (cases "ff \<le> time c")
    case True
    then have "foldl (\<lambda>a c. keep_entry ff c a) (Suc nx, w1) cs = (nx', w')"
      using Cons.prems by (simp add: keep_entry_def w1_def)
    from Cons.IH [OF this]
    have n: "nx' = Suc nx + length (filter (\<lambda>c. ff \<le> time c) cs)"
      and m: "map (client_states w') [Suc nx ..< nx'] = filter (\<lambda>c. ff \<le> time c) cs"
      and k: "\<forall>i<Suc nx. client_states w' i = client_states w1 i"
      and ch: "client_states_changed w' = (client_states_changed w1 \<or> (\<exists>c\<in>set cs. time c < ff))"
      by blast+
    have lt: "nx < nx'" using n by simp
    have at: "client_states w' nx = c" using k by (simp add: w1_def)
    have "map (client_states w') [nx ..< nx'] = c # map (client_states w') [Suc nx ..< nx']"
      using lt at by (simp add: upt_conv_Cons)
    then have "map (client_states w') [nx ..< nx'] = filter (\<lambda>c. ff \<le> time c) (c # cs)"
      using m True by simp
    moreover have "\<forall>i<nx. client_states w' i = client_states w i"
      using k by (simp add: w1_def)
    moreover have "client_states_changed w' = (client_states_changed w \<or> (\<exists>c\<in>set (c # cs). time c < ff))"
      using ch True by (auto simp: w1_def)
    ultimately show ?thesis using n True by simp
  next
    case False
    then have "foldl (\<lambda>a c. keep_entry ff c a) (nx, w1) cs = (nx', w')"
      using Cons.prems by (simp add: keep_entry_def w1_def)
    from Cons.IH [OF this]
    have n: "nx' = nx + length (filter (\<lambda>c. ff \<le> time c) cs)"
      and m: "map (client_states w') [nx ..< nx'] = filter (\<lambda>c. ff \<le> time c) cs"
      and k: "\<forall>i<nx. client_states w' i = client_states w1 i"
      and ch: "client_states_changed w' = (client_states_changed w1 \<or> (\<exists>c\<in>set cs. time c < ff))"
      by blast+
    have "\<forall>i<nx. client_states w' i = client_states w i"
      using k by (simp add: w1_def)
    moreover have "client_states_changed w' = (client_states_changed w \<or> (\<exists>c\<in>set (c # cs). time c < ff))"
      using ch False by (auto simp: w1_def)
    ultimately show ?thesis using n m False by simp
  qed
qed

lemma keep_entries_frame:
  "foldl (\<lambda>a c. keep_entry ff c a) (nx, w) cs = (nx', w') \<Longrightarrow>
   errno w' = errno w \<and> state_file w' = state_file w \<and> state_text w' = state_text w
     \<and> lock_calls w' = lock_calls w"
proof (induction cs arbitrary: nx w)
  case Nil
  then show ?case by simp
next
  case (Cons c cs)
  obtain nx1 w1 where k: "keep_entry ff c (nx, w) = (nx1, w1)"
    by (cases "keep_entry ff c (nx, w)")
  then have "errno w1 = errno w \<and> state_file w1 = state_file w \<and> state_text w1 = state_text w
     \<and> lock_calls w1 = lock_calls w"
    by (auto simp: keep_entry_def)
  moreover have "foldl (\<lambda>a c. keep_entry ff c a) (nx1, w1) cs = (nx', w')"
    using Cons.prems k by simp
  ultimately show ?case using Cons.IH by metis
qed

lemma load_serialized:
  assumes ok: "\<forall>c\<in>set cs. entry_ok c" and fl: "state_file w = serialize cs"
  shows "\<exists>w'. load_client_states narwhal LoadOk now w = (Inr (), w')
     \<and> entries w' = filter (\<lambda>c. now - timeout_sec narwhal \<le> time c) cs
     \<and> client_states_changed w' = (\<exists>c\<in>set cs. time c < now - timeout_sec narwhal)
     \<and> state_file w' = state_file w \<and> errno w' = errno w"
proof -
  define ff where "ff = now - timeout_sec narwhal"
  define buf where "buf = concat (map nul_line cs) @ [CHR 0x00, CHR 0x00]"
  define w0 where "w0 = w\<lparr>state_text := buf, client_states_changed := False, granted_state := None\<rparr>"
  have nul: "nul_separators (state_file w @ [CHR 0x00, CHR 0x00]) = buf"
    unfolding fl buf_def using nul_separators_serialize [OF ok] by simp
  obtain nx' w1 where f: "foldl (\<lambda>a c. keep_entry ff c a) (0, w0) cs = (nx', w1)"
    by (cases "foldl (\<lambda>a c. keep_entry ff c a) (0, w0) cs")
  have "parse_loop ff buf 0 0 w0 = Inr (w1\<lparr>n_client_states := nx'\<rparr>)"
    unfolding buf_def using parse_loop_lines [OF ok, of 0 ff "[CHR 0x00]" 0 w0] f by simp
  then have load: "load_client_states narwhal LoadOk now w = (Inr (), w1\<lparr>n_client_states := nx'\<rparr>)"
    by (simp add: load_client_states_def load_state_text_def parse_client_states_def nul
          Let_def ff_def w0_def)
  note k = keep_entries [OF f]
  have m: "map (client_states w1) [0 ..< nx'] = filter (\<lambda>c. ff \<le> time c) cs"
    using k by blast
  have c: "client_states_changed w1 = (client_states_changed w0 \<or> (\<exists>c\<in>set cs. time c < ff))"
    using k by blast
  have "entries (w1\<lparr>n_client_states := nx'\<rparr>) = filter (\<lambda>c. ff \<le> time c) cs"
    using m by (simp add: entries_def)
  moreover have "client_states_changed (w1\<lparr>n_client_states := nx'\<rparr>) = (\<exists>c\<in>set cs. time c < ff)"
    using c by (simp add: w0_def)
  moreover have "state_file (w1\<lparr>n_client_states := nx'\<rparr>) = state_file w
      \<and> errno (w1\<lparr>n_client_states := nx'\<rparr>) = errno w"
    using keep_entries_frame [OF f] by (simp add: w0_def)
  ultimately show ?thesis using load unfolding ff_def by blast
qed

text \<open>Where \<^verbatim>\<open>granted_state\<close> points after the file is parsed.\<close>

lemma keep_granted_none:
  "foldl (\<lambda>a c. keep_entry ff c a) (nx, w) cs = (nx', w') \<Longrightarrow> granted_state w' = None \<Longrightarrow>
   granted_state w = None \<and> (\<forall>c\<in>set cs. \<not> is_granted c)"
proof (induction cs arbitrary: nx w)
  case Nil
  then show ?case by simp
next
  case (Cons c cs)
  obtain nx1 w1 where k: "keep_entry ff c (nx, w) = (nx1, w1)"
    by (cases "keep_entry ff c (nx, w)")
  then have "foldl (\<lambda>a c. keep_entry ff c a) (nx1, w1) cs = (nx', w')"
    using Cons.prems(1) by simp
  from Cons.IH [OF this Cons.prems(2)]
  have n1: "granted_state w1 = None" and r: "\<forall>c\<in>set cs. \<not> is_granted c" by blast+
  have "granted_state w1 = (if is_granted c then Some nx else granted_state w)"
    using k by (auto simp: keep_entry_def)
  then have "\<not> is_granted c \<and> granted_state w = None"
    using n1 by (auto split: if_splits)
  then show ?case using r by simp
qed

lemma keep_granted_stays:
  assumes "foldl (\<lambda>a c. keep_entry ff c a) (nx, w) cs = (nx', w')"
    and "granted_state w = Some k" and "k < nx" and "client_states w k = x"
    and "\<forall>c\<in>set cs. is_granted c \<longrightarrow> c = x" and "ff \<le> time x"
  shows "\<exists>k'. granted_state w' = Some k' \<and> k' < nx' \<and> client_states w' k' = x"
  using assms(1-5)
proof (induction cs arbitrary: nx w k)
  case Nil
  then show ?case by simp
next
  case (Cons c cs)
  obtain nx1 w1 where s: "keep_entry ff c (nx, w) = (nx1, w1)"
    by (cases "keep_entry ff c (nx, w)")
  then have f: "foldl (\<lambda>a c. keep_entry ff c a) (nx1, w1) cs = (nx', w')"
    using Cons.prems(1) by simp
  have rest: "\<forall>c\<in>set cs. is_granted c \<longrightarrow> c = x"
    using Cons.prems(5) by simp
  show ?case
  proof (cases "is_granted c")
    case True
    then have cx: "c = x" using Cons.prems(5) by simp
    then have "granted_state w1 = Some nx" and "nx < nx1" and "client_states w1 nx = x"
      using s True assms(6) by (auto simp: keep_entry_def)
    from Cons.IH [OF f this rest] show ?thesis .
  next
    case False
    then have "granted_state w1 = Some k" and "k < nx1" and "client_states w1 k = x"
      using s Cons.prems(2,3,4) by (auto simp: keep_entry_def)
    from Cons.IH [OF f this rest] show ?thesis .
  qed
qed

lemma keep_granted_found:
  assumes "foldl (\<lambda>a c. keep_entry ff c a) (nx, w) cs = (nx', w')"
    and "x \<in> set cs" and "is_granted x" and "ff \<le> time x"
    and "\<forall>c\<in>set cs. is_granted c \<longrightarrow> c = x"
  shows "\<exists>k'. granted_state w' = Some k' \<and> k' < nx' \<and> client_states w' k' = x"
  using assms(1,2,5)
proof (induction cs arbitrary: nx w)
  case Nil
  then show ?case by simp
next
  case (Cons c cs)
  obtain nx1 w1 where s: "keep_entry ff c (nx, w) = (nx1, w1)"
    by (cases "keep_entry ff c (nx, w)")
  then have f: "foldl (\<lambda>a c. keep_entry ff c a) (nx1, w1) cs = (nx', w')"
    using Cons.prems(1) by simp
  have rest: "\<forall>c\<in>set cs. is_granted c \<longrightarrow> c = x"
    using Cons.prems(3) by simp
  show ?case
  proof (cases "c = x")
    case True
    then have "granted_state w1 = Some nx" and "nx < nx1" and "client_states w1 nx = x"
      using s assms(3,4) by (auto simp: keep_entry_def)
    from keep_granted_stays [OF f this rest assms(4)] show ?thesis .
  next
    case False
    then have "x \<in> set cs" using Cons.prems(2) by simp
    from Cons.IH [OF f this rest] show ?thesis .
  qed
qed

lemma load_serialized_fold:
  assumes ok: "\<forall>c\<in>set cs. entry_ok c" and fl: "state_file w = serialize cs"
  shows "\<exists>nx' w1.
          foldl (\<lambda>a c. keep_entry (now - timeout_sec narwhal) c a)
            (0, w\<lparr>state_text := concat (map nul_line cs) @ [CHR 0x00, CHR 0x00],
                  client_states_changed := False, granted_state := None\<rparr>) cs = (nx', w1)
        \<and> load_client_states narwhal LoadOk now w = (Inr (), w1\<lparr>n_client_states := nx'\<rparr>)"
proof -
  define ff where "ff = now - timeout_sec narwhal"
  define buf where "buf = concat (map nul_line cs) @ [CHR 0x00, CHR 0x00]"
  define w0 where "w0 = w\<lparr>state_text := buf, client_states_changed := False, granted_state := None\<rparr>"
  have nul: "nul_separators (state_file w @ [CHR 0x00, CHR 0x00]) = buf"
    unfolding fl buf_def using nul_separators_serialize [OF ok] by simp
  obtain nx' w1 where f: "foldl (\<lambda>a c. keep_entry ff c a) (0, w0) cs = (nx', w1)"
    by (cases "foldl (\<lambda>a c. keep_entry ff c a) (0, w0) cs")
  have "parse_loop ff buf 0 0 w0 = Inr (w1\<lparr>n_client_states := nx'\<rparr>)"
    unfolding buf_def using parse_loop_lines [OF ok, of 0 ff "[CHR 0x00]" 0 w0] f by simp
  then have "load_client_states narwhal LoadOk now w = (Inr (), w1\<lparr>n_client_states := nx'\<rparr>)"
    by (simp add: load_client_states_def load_state_text_def parse_client_states_def nul
          Let_def ff_def w0_def)
  then show ?thesis using f unfolding ff_def w0_def buf_def by blast
qed

lemma load_serialized_granted:
  assumes ok: "\<forall>c\<in>set cs. entry_ok c" and fl: "state_file w = serialize cs"
  shows "\<exists>w'. load_client_states narwhal LoadOk now w = (Inr (), w')
     \<and> entries w' = filter (\<lambda>c. now - timeout_sec narwhal \<le> time c) cs
     \<and> client_states_changed w' = (\<exists>c\<in>set cs. time c < now - timeout_sec narwhal)
     \<and> state_file w' = state_file w
     \<and> (granted_state w' = None \<longrightarrow> (\<forall>c\<in>set cs. \<not> is_granted c))
     \<and> (\<forall>x\<in>set cs. is_granted x \<longrightarrow> now - timeout_sec narwhal \<le> time x \<longrightarrow>
           (\<forall>c\<in>set cs. is_granted c \<longrightarrow> c = x) \<longrightarrow>
           (\<exists>k. granted_state w' = Some k \<and> client_states w' k = x))"
proof -
  define ff where "ff = now - timeout_sec narwhal"
  define w0 where "w0 = w\<lparr>state_text := concat (map nul_line cs) @ [CHR 0x00, CHR 0x00],
                  client_states_changed := False, granted_state := None\<rparr>"
  obtain nx' w1 where f: "foldl (\<lambda>a c. keep_entry ff c a) (0, w0) cs = (nx', w1)"
    and l: "load_client_states narwhal LoadOk now w = (Inr (), w1\<lparr>n_client_states := nx'\<rparr>)"
    using load_serialized_fold [OF ok fl, of now narwhal] unfolding ff_def w0_def by blast
  let ?w = "w1\<lparr>n_client_states := nx'\<rparr>"
  note k = keep_entries [OF f]
  have m: "map (client_states w1) [0 ..< nx'] = filter (\<lambda>c. ff \<le> time c) cs"
    using k by blast
  have c: "client_states_changed w1 = (client_states_changed w0 \<or> (\<exists>c\<in>set cs. time c < ff))"
    using k by blast
  have e: "entries ?w = filter (\<lambda>c. ff \<le> time c) cs"
    using m by (simp add: entries_def)
  have ch: "client_states_changed ?w = (\<exists>c\<in>set cs. time c < ff)"
    using c by (simp add: w0_def)
  have sf: "state_file ?w = state_file w"
    using keep_entries_frame [OF f] by (simp add: w0_def)
  have g0: "granted_state ?w = None \<longrightarrow> (\<forall>c\<in>set cs. \<not> is_granted c)"
    using keep_granted_none [OF f] by simp
  have g1: "\<exists>k. granted_state ?w = Some k \<and> client_states ?w k = x"
    if h: "x \<in> set cs" "is_granted x" "ff \<le> time x" "\<forall>c\<in>set cs. is_granted c \<longrightarrow> c = x" for x
  proof -
    obtain k where "granted_state w1 = Some k" and "client_states w1 k = x"
      using keep_granted_found [OF f h] by blast
    then show ?thesis by simp
  qed
  have g2: "\<forall>x\<in>set cs. is_granted x \<longrightarrow> ff \<le> time x \<longrightarrow>
           (\<forall>c\<in>set cs. is_granted c \<longrightarrow> c = x) \<longrightarrow>
           (\<exists>k. granted_state ?w = Some k \<and> client_states ?w k = x)"
    using g1 by (intro ballI impI)
  show ?thesis
    unfolding ff_def [symmetric]
    by (intro exI [of _ ?w] conjI l e ch sf g0 g2)
qed

subsection \<open>The parser on any buffer\<close>

lemma parse_field_frame:
  assumes "parse_field ff tok k nx w = Inr (nx', w')"
  shows "state_file w' = state_file w \<and> errno w' = errno w \<and> lock_calls w' = lock_calls w"
  using assms by (auto simp: parse_field_def Let_def split: if_splits)

lemma parse_field_slots:
  assumes "parse_field ff tok k nx w = Inr (nx', w')"
  shows "(\<forall>i<nx. client_states w' i = client_states w i)
       \<and> (nx' = nx \<or> (nx' = Suc nx \<and> ff \<le> time (client_states w' nx)))"
  using assms by (auto simp: parse_field_def Let_def split: if_splits)

lemma parse_loop_frame:
  "parse_loop ff p fi nx w = Inr w' \<Longrightarrow>
   state_file w' = state_file w \<and> errno w' = errno w \<and> lock_calls w' = lock_calls w"
proof (induction ff p fi nx w rule: parse_loop.induct)
  case (1 ff p fi nx w)
  show ?case
  proof (cases "p = [] \<or> hd p = CHR 0x00")
    case True
    then have "w' = w\<lparr>n_client_states := nx\<rparr>"
      using "1.prems" by (subst (asm) parse_loop.simps) simp
    then show ?thesis by simp
  next
    case False
    then obtain nx1 w1 where
      f: "parse_field ff (c_string p) (fi mod 5) nx w = Inr (nx1, w1)"
      and r: "parse_loop ff (skip_string p) (Suc fi) nx1 w1 = Inr w'"
      using "1.prems" by (subst (asm) parse_loop.simps) (auto split: sum.splits)
    show ?thesis
      using "1.IH" [OF False f refl r] parse_field_frame [OF f] by simp
  qed
qed

lemma parse_loop_fresh:
  "parse_loop ff p fi nx w = Inr w' \<Longrightarrow> \<forall>i<nx. ff \<le> time (client_states w i) \<Longrightarrow>
   \<forall>i<n_client_states w'. ff \<le> time (client_states w' i)"
proof (induction ff p fi nx w rule: parse_loop.induct)
  case (1 ff p fi nx w)
  show ?case
  proof (cases "p = [] \<or> hd p = CHR 0x00")
    case True
    then have "w' = w\<lparr>n_client_states := nx\<rparr>"
      using "1.prems"(1) by (subst (asm) parse_loop.simps) simp
    then show ?thesis using "1.prems"(2) by simp
  next
    case False
    then obtain nx1 w1 where
      f: "parse_field ff (c_string p) (fi mod 5) nx w = Inr (nx1, w1)"
      and r: "parse_loop ff (skip_string p) (Suc fi) nx1 w1 = Inr w'"
      using "1.prems"(1) by (subst (asm) parse_loop.simps) (auto split: sum.splits)
    have "\<forall>i<nx1. ff \<le> time (client_states w1 i)"
      using parse_field_slots [OF f] "1.prems"(2) by (auto simp: less_Suc_eq)
    then show ?thesis
      using "1.IH" [OF False f refl r] by simp
  qed
qed

lemma load_frame:
  assumes "load_client_states narwhal io now w = (Inr (), w')"
  shows "state_file w' = state_file w \<and> lock_calls w' = lock_calls w"
proof -
  obtain w1 where l: "load_state_text io w = (Inr (), w1)"
    and p: "parse_client_states (timeout_sec narwhal) now w1 = Inr w'"
    using assms by (auto simp: load_client_states_def split: prod.splits sum.splits)
  have "state_file w1 = state_file w \<and> lock_calls w1 = lock_calls w"
    using l by (auto simp: load_state_text_def split: load_io.splits)
  moreover have "state_file w' = state_file w1 \<and> lock_calls w' = lock_calls w1"
    using p parse_loop_frame by (fastforce simp: parse_client_states_def Let_def)
  ultimately show ?thesis by simp
qed

lemma load_fresh:
  assumes "load_client_states narwhal io now w = (Inr (), w')"
  shows "\<forall>c\<in>set (entries w'). now - timeout_sec narwhal \<le> time c"
proof -
  obtain w1 where p: "parse_client_states (timeout_sec narwhal) now w1 = Inr w'"
    using assms by (auto simp: load_client_states_def split: prod.splits sum.splits)
  then have "\<forall>i<n_client_states w'. now - timeout_sec narwhal \<le> time (client_states w' i)"
    using parse_loop_fresh by (fastforce simp: parse_client_states_def Let_def)
  then show ?thesis by (simp add: entries_def)
qed


subsection \<open>The search loop\<close>

lemma find_client_first:
  assumes "s \<le> i" and "i < s + k" and "owned_by me (cs i)"
    and "\<forall>j. s \<le> j \<and> j < i \<longrightarrow> \<not> owned_by me (cs j)"
  shows "find_client me cs k s = i"
  using assms
proof (induction k arbitrary: s)
  case 0
  then show ?case by simp
next
  case (Suc k)
  show ?case
  proof (cases "s = i")
    case True
    then show ?thesis using Suc.prems(3) by (simp add: owned_by_def)
  next
    case False
    then have lt: "s < i" using Suc.prems(1) by simp
    then have "\<not> owned_by me (cs s)" using Suc.prems(4) by simp
    moreover have "find_client me cs k (Suc s) = i"
      using Suc.IH [of "Suc s"] Suc.prems lt by simp
    ultimately show ?thesis by (auto simp: owned_by_def)
  qed
qed

lemma find_client_range: "s \<le> find_client me cs k s \<and> find_client me cs k s \<le> s + k"
proof (induction k arbitrary: s)
  case 0
  then show ?case by simp
next
  case (Suc k)
  show ?case using Suc.IH [of "Suc s"] by auto
qed

lemma find_client_found:
  "find_client me cs k s < s + k \<Longrightarrow>
   owned_by me (cs (find_client me cs k s))
     \<and> (\<forall>j. s \<le> j \<and> j < find_client me cs k s \<longrightarrow> \<not> owned_by me (cs j))"
proof (induction k arbitrary: s)
  case 0
  then show ?case by simp
next
  case (Suc k)
  show ?case
  proof (cases "owned_by me (cs s)")
    case True
    then show ?thesis by (auto simp: owned_by_def)
  next
    case False
    then have eq: "find_client me cs (Suc k) s = find_client me cs k (Suc s)"
      by (auto simp: owned_by_def)
    then have "find_client me cs k (Suc s) < Suc s + k" using Suc.prems by simp
    from Suc.IH [OF this]
    have o: "owned_by me (cs (find_client me cs k (Suc s)))"
      and n: "\<forall>j. Suc s \<le> j \<and> j < find_client me cs k (Suc s) \<longrightarrow> \<not> owned_by me (cs j)"
      by blast+
    have "\<not> owned_by me (cs j)" if "s \<le> j" and "j < find_client me cs k (Suc s)" for j
    proof (cases "j = s")
      case True
      then show ?thesis using False by simp
    next
      case False
      then have "Suc s \<le> j" using that(1) by simp
      then show ?thesis using n that(2) by blast
    qed
    then show ?thesis unfolding eq using o by blast
  qed
qed

lemma find_client_end:
  "find_client me cs k s = s + k \<Longrightarrow> \<forall>j. s \<le> j \<and> j < s + k \<longrightarrow> \<not> owned_by me (cs j)"
proof (induction k arbitrary: s)
  case 0
  then show ?case by auto
next
  case (Suc k)
  have n: "\<not> owned_by me (cs s)"
  proof
    assume "owned_by me (cs s)"
    then have "find_client me cs (Suc k) s = s" by (simp add: owned_by_def)
    then show False using Suc.prems by simp
  qed
  then have "find_client me cs k (Suc s) = Suc s + k"
    using Suc.prems by (auto simp: owned_by_def)
  from Suc.IH [OF this]
  have r: "\<forall>j. Suc s \<le> j \<and> j < Suc s + k \<longrightarrow> \<not> owned_by me (cs j)" .
  have "\<not> owned_by me (cs j)" if "s \<le> j" and "j < s + Suc k" for j
  proof (cases "j = s")
    case True
    then show ?thesis using n by simp
  next
    case False
    then have "Suc s \<le> j \<and> j < Suc s + k" using that by simp
    then show ?thesis using r by blast
  qed
  then show ?case by blast
qed

subsection \<open>What the mutex and the engine leave alone\<close>

lemma spin_frame:
  "spin narwhal me d ls w = Some (r, w') \<Longrightarrow> state_file w' = state_file w"
proof (induction ls arbitrary: w)
  case Nil
  then show ?case by simp
next
  case (Cons a ls)
  obtain l t where a: "a = (l, t)" by (cases a)
  show ?case
  proof (cases l)
    case None
    then show ?thesis using Cons.prems a by (auto simp: Let_def)
  next
    case (Some e)
    show ?thesis
    proof (cases "t > d")
      case True
      then show ?thesis using Cons.prems a Some by (auto simp: Let_def)
    next
      case False
      then have "spin narwhal me d ls
          (w\<lparr>lock_calls := lock_calls w @ [Link (private_path narwhal me) (lockfile_path narwhal)],
             errno := e\<rparr>) = Some (r, w')"
        using Cons.prems a Some by (simp add: Let_def)
      from Cons.IH [OF this] show ?thesis by simp
    qed
  qed
qed

lemma exclusive_lock_frame:
  "exclusive_lock narwhal me io w = Some (r, w') \<Longrightarrow> state_file w' = state_file w"
  using spin_frame
  by (fastforce simp: exclusive_lock_def Let_def split: option.splits)

lemma exclusive_unlock_errno:
  "errno w \<noteq> 0 \<Longrightarrow> errno (snd (exclusive_unlock narwhal me io1 io2 w)) = errno w"
  by (cases io1; cases io2) (simp_all add: exclusive_unlock_def unlink_def Let_def)

lemma exclusive_unlock_file:
  "state_file (snd (exclusive_unlock narwhal me io1 io2 w)) = state_file w"
  by (cases io1; cases io2) (simp_all add: exclusive_unlock_def unlink_def Let_def)

lemma exclusive_lock_calm:
  "exclusive_lock scenario me (calm_round t) (fresh_process file) = Some (Inr (), locked me file)"
  by (simp add: exclusive_lock_def calm_round_def fresh_process_def locked_def Let_def)

lemma request_lock_conflict:
  assumes i: "i < n_client_states w" and own: "owned_by me (client_states w i)"
    and first: "\<forall>j<i. \<not> owned_by me (client_states w j)"
    and bad: "is_granted (client_states w i) \<or> is_write_lock (client_states w i) \<noteq> want_write"
  shows "request_lock me want_write now io w = (Inl ReturnedError, w\<lparr>errno := ENOTSUP\<rparr>)"
proof -
  have f: "find_client me (client_states w) (n_client_states w) 0 = i"
    using find_client_first [of 0 i "n_client_states w" me "client_states w"] i own first by simp
  show ?thesis
    using i bad by (simp add: request_lock_def Let_def f)
qed

lemma request_lock_renew:
  assumes i: "i < n_client_states w" and own: "owned_by me (client_states w i)"
    and first: "\<forall>j<i. \<not> owned_by me (client_states w j)"
    and pend: "\<not> is_granted (client_states w i)"
    and mode: "is_write_lock (client_states w i) = want_write"
  shows "request_lock me want_write now io w =
     (let mine = client_states w i;
          dirty = (client_states_changed w \<or> grant_now want_write w \<or> time mine \<noteq> now);
          w1 = w\<lparr>client_states :=
                   (client_states w)(i := mine\<lparr>is_granted := grant_now want_write w, time := now\<rparr>),
                 client_states_changed := dirty\<rparr>
      in if dirty then
           (case dump_client_states io w1 of
              (r, w2) \<Rightarrow> (if r < 0 then Inl ReturnedError else Inr (grant_now want_write w), w2))
         else (Inr (grant_now want_write w), w1))"
proof -
  let ?cs = "client_states w"
  let ?mine = "client_states w i"
  let ?g = "grant_now want_write w"
  define dirty where "dirty = (client_states_changed w \<or> ?g \<or> time ?mine \<noteq> now)"
  define w' where "w' = (if ?g then w\<lparr>client_states := ?cs(i := ?mine\<lparr>is_granted := True\<rparr>),
                           client_states_changed := True\<rparr> else w)"
  define w1 where "w1 = (if time (client_states w' i) \<noteq> now then
                  w'\<lparr>client_states := (client_states w')(i := (client_states w' i)\<lparr>time := now\<rparr>),
                     client_states_changed := True\<rparr>
                else w')"
  define W1 where "W1 = w\<lparr>client_states := ?cs(i := ?mine\<lparr>is_granted := ?g, time := now\<rparr>),
                 client_states_changed := dirty\<rparr>"
  have f: "find_client me (client_states w) (n_client_states w) 0 = i"
    using find_client_first [of 0 i "n_client_states w" me "client_states w"] i own first by simp
  have p: "\<not> is_granted ?mine" using pend by simp
  have keep: "?mine\<lparr>is_granted := False\<rparr> = ?mine" using p by simp
  have eq: "w1 = W1"
  proof (cases ?g)
    case True
    show ?thesis
    proof (cases "time ?mine = now")
      case eqt: True
      have r: "?mine\<lparr>is_granted := True, time := now\<rparr> = ?mine\<lparr>is_granted := True\<rparr>"
        unfolding eqt [symmetric] by simp
      show ?thesis
        using True eqt by (simp add: w1_def w'_def W1_def dirty_def r)
    next
      case False
      then show ?thesis
        using True by (simp add: w1_def w'_def W1_def dirty_def)
    qed
  next
    case False
    show ?thesis
    proof (cases "time ?mine = now")
      case eqt: True
      have "?mine\<lparr>is_granted := False, time := now\<rparr> = ?mine"
        unfolding eqt [symmetric] using p by simp
      then have r: "?cs(i := ?mine\<lparr>is_granted := False, time := now\<rparr>) = ?cs"
        by simp
      have "w1 = w" using False eqt by (simp add: w1_def w'_def)
      moreover have "W1 = w"
        using False eqt r by (simp add: W1_def dirty_def)
      ultimately show ?thesis by simp
    next
      case neq: False
      have r: "?mine\<lparr>is_granted := False, time := now\<rparr> = ?mine\<lparr>time := now\<rparr>"
        using p by simp
      have "w1 = w\<lparr>client_states := ?cs(i := ?mine\<lparr>time := now\<rparr>), client_states_changed := True\<rparr>"
        using False neq by (simp add: w1_def w'_def)
      moreover have "W1 = w\<lparr>client_states := ?cs(i := ?mine\<lparr>time := now\<rparr>), client_states_changed := True\<rparr>"
        using False neq by (simp add: W1_def dirty_def r)
      ultimately show ?thesis by simp
    qed
  qed
  have ch: "client_states_changed W1 = dirty"
    by (simp add: W1_def)
  have "request_lock me want_write now io w =
          (if client_states_changed w1 then
             (case dump_client_states io w1 of
                (r, w2) \<Rightarrow> if r < 0 then (Inl ReturnedError, w2) else (Inr ?g, w2))
           else (Inr ?g, w1))"
    using i pend mode
    by (simp add: request_lock_def Let_def f w1_def w'_def)
  also have "\<dots> = (if dirty then
           (case dump_client_states io W1 of
              (r, w2) \<Rightarrow> (if r < 0 then Inl ReturnedError else Inr ?g, w2))
         else (Inr ?g, W1))"
    unfolding eq ch by (simp split: prod.splits)
  finally show ?thesis
    by (simp add: Let_def W1_def dirty_def)
qed

subsection \<open>Acquiring keeps the invariants of the state file\<close>

lemma lock_inv_filter: "lock_inv cs \<Longrightarrow> lock_inv (filter P cs)"
  unfolding lock_inv_def by (simp add: distinct_map_filter)

lemma lock_invI:
  assumes "distinct (map owner cs)"
    and "\<And>a b. a \<in> set cs \<Longrightarrow> b \<in> set cs \<Longrightarrow> is_granted a \<Longrightarrow> is_granted b \<Longrightarrow>
           is_write_lock a = is_write_lock b"
    and "\<And>a b. a \<in> set cs \<Longrightarrow> b \<in> set cs \<Longrightarrow> is_granted a \<Longrightarrow> is_write_lock a \<Longrightarrow>
           is_granted b \<Longrightarrow> owner a = owner b"
  shows "lock_inv cs"
  unfolding lock_inv_def using assms by blast

lemma lock_inv_same:
  "lock_inv cs \<Longrightarrow> a \<in> set cs \<Longrightarrow> b \<in> set cs \<Longrightarrow> is_granted a \<Longrightarrow> is_granted b \<Longrightarrow>
   is_write_lock a = is_write_lock b"
  unfolding lock_inv_def by blast

lemma lock_inv_one:
  "lock_inv cs \<Longrightarrow> a \<in> set cs \<Longrightarrow> b \<in> set cs \<Longrightarrow> is_granted a \<Longrightarrow> is_write_lock a \<Longrightarrow>
   is_granted b \<Longrightarrow> owner a = owner b"
  unfolding lock_inv_def by blast

lemma lock_inv_distinct: "lock_inv cs \<Longrightarrow> distinct (map owner cs)"
  unfolding lock_inv_def by blast

lemma lock_inv_insert:
  assumes inv: "lock_inv ks" and sub: "set ks' \<subseteq> insert x (set ks)"
    and d: "distinct (map owner ks')"
    and g: "is_granted x \<longrightarrow> (\<forall>c\<in>set ks. is_granted c \<longrightarrow> \<not> is_write_lock c \<and> \<not> is_write_lock x)"
  shows "lock_inv ks'"
proof (rule lock_invI [OF d])
  fix a b
  assume a: "a \<in> set ks'" and b: "b \<in> set ks'" and ga: "is_granted a" and gb: "is_granted b"
  have ax: "a = x \<or> a \<in> set ks" and bx: "b = x \<or> b \<in> set ks" using a b sub by auto
  show "is_write_lock a = is_write_lock b"
  proof (cases "is_granted x")
    case True
    have r: "\<not> is_write_lock c \<and> \<not> is_write_lock x" if "c \<in> set ks" "is_granted c" for c
      using g True that by blast
    show ?thesis
    proof (cases "a = x")
      case ax': True
      show ?thesis
      proof (cases "b = x")
        case True
        then show ?thesis using ax' by simp
      next
        case False
        then have "b \<in> set ks" using bx by simp
        then show ?thesis using r [OF _ gb] ax' by simp
      qed
    next
      case False
      then have ak: "a \<in> set ks" using ax by simp
      show ?thesis
      proof (cases "b = x")
        case True
        then show ?thesis using r [OF ak ga] by simp
      next
        case False
        then have "b \<in> set ks" using bx by simp
        then show ?thesis using r [OF ak ga] r [OF _ gb] by simp
      qed
    qed
  next
    case False
    then have "a \<in> set ks" "b \<in> set ks" using ax bx ga gb by auto
    then show ?thesis using lock_inv_same [OF inv] ga gb by blast
  qed
next
  fix a b
  assume a: "a \<in> set ks'" and b: "b \<in> set ks'" and ga: "is_granted a" and wa: "is_write_lock a"
    and gb: "is_granted b"
  have ax: "a = x \<or> a \<in> set ks" and bx: "b = x \<or> b \<in> set ks" using a b sub by auto
  show "owner a = owner b"
  proof (cases "is_granted x")
    case True
    have r: "\<not> is_write_lock c \<and> \<not> is_write_lock x" if "c \<in> set ks" "is_granted c" for c
      using g True that by blast
    have "a \<notin> set ks" using r [OF _ ga] wa by blast
    then have ax': "a = x" using ax by simp
    have "b \<notin> set ks" using r [OF _ gb] wa ax' by blast
    then have "b = x" using bx by simp
    then show ?thesis using ax' by simp
  next
    case False
    then have "a \<in> set ks" "b \<in> set ks" using ax bx ga gb by auto
    then show ?thesis using lock_inv_one [OF inv] ga wa gb by blast
  qed
qed

lemma lock_inv_append:
  assumes "lock_inv ks" and "owner e \<notin> set (map owner ks)"
    and "is_granted e \<longrightarrow> (\<forall>c\<in>set ks. is_granted c \<longrightarrow> \<not> is_write_lock c \<and> \<not> is_write_lock e)"
  shows "lock_inv (ks @ [e])"
proof (rule lock_inv_insert [OF assms(1) _ _ assms(3)])
  show "set (ks @ [e]) \<subseteq> insert e (set ks)" by auto
  show "distinct (map owner (ks @ [e]))"
    using lock_inv_distinct [OF assms(1)] assms(2) by simp
qed

lemma lock_inv_update:
  assumes "lock_inv ks" and "i < length ks" and "owner x = owner (ks ! i)"
    and "is_granted x \<longrightarrow> (\<forall>c\<in>set ks. is_granted c \<longrightarrow> \<not> is_write_lock c \<and> \<not> is_write_lock x)"
  shows "lock_inv (ks[i := x])"
proof (rule lock_inv_insert [OF assms(1) _ _ assms(4)])
  show "set (ks[i := x]) \<subseteq> insert x (set ks)"
    by (rule set_update_subset_insert)
  have "(map owner ks)[i := map owner ks ! i] = map owner ks"
    by (rule list_update_id)
  then have "map owner (ks[i := x]) = map owner ks"
    using assms(2,3) by (simp add: map_update)
  then show "distinct (map owner (ks[i := x]))"
    using lock_inv_distinct [OF assms(1)] by simp
qed

lemma lock_inv_unique:
  assumes "lock_inv cs" and "a \<in> set cs" and "is_granted a" and "is_write_lock a"
    and "b \<in> set cs" and "is_granted b"
  shows "b = a"
proof -
  have "owner a = owner b"
    using lock_inv_one [OF assms(1,2,5,3,4,6)] .
  moreover have "inj_on owner (set cs)"
    using lock_inv_distinct [OF assms(1)] by (simp add: distinct_map)
  ultimately show ?thesis using assms(2,5) by (auto dest: inj_onD)
qed

lemma entries_nth: "j < n_client_states w \<Longrightarrow> entries w ! j = client_states w j"
  by (simp add: entries_def)

lemma entries_length: "length (entries w) = n_client_states w"
  by (simp add: entries_def)

lemma entries_update:
  "i < n_client_states w \<Longrightarrow>
   entries (w\<lparr>client_states := (client_states w)(i := x)\<rparr>) = (entries w)[i := x]"
  by (auto simp: entries_def list_eq_iff_nth_eq nth_list_update)

lemma request_lock_new:
  assumes "find_client me (client_states w) (n_client_states w) 0 = n_client_states w"
  shows "state_file (snd (request_lock me want_write now DumpOk w))
         = serialize (entries w @ [\<lparr>is_write_lock = want_write, is_granted = grant_now want_write w,
              time = now, host_name = my_host_name me, pid = my_pid me\<rparr>])"
  using assms by (simp add: request_lock_def Let_def dump_client_states_def entries_def)

lemma owned_by_owner: "owned_by me c \<longleftrightarrow> owner c = (my_host_name me, my_pid me)"
  by (auto simp: owned_by_def owner_def)

text \<open>One round of an acquire, system calls succeeding: when the state file holds the
  serialization of entries that satisfy the invariants, so it does afterwards,
  whether the request is granted, left pending or refused.\<close>

lemma acquire_preserves_lock_inv:
  assumes ok: "\<forall>c\<in>set cs. entry_ok c" and inv: "lock_inv cs"
    and fl: "state_file w = serialize cs"
    and lio: "load_io io = LoadOk" and dio: "dump_io io = DumpOk"
  shows "\<exists>cs'. state_file (snd (load_and_request narwhal me want_write io w)) = serialize cs'
            \<and> lock_inv cs'"
proof -
  define ff where "ff = parse_clock io - timeout_sec narwhal"
  define ks where "ks = filter (\<lambda>c. ff \<le> time c) cs"
  have "\<exists>w1. load_client_states narwhal LoadOk (parse_clock io) w = (Inr (), w1)
     \<and> entries w1 = ks
     \<and> client_states_changed w1 = (\<exists>c\<in>set cs. time c < ff)
     \<and> state_file w1 = state_file w
     \<and> (granted_state w1 = None \<longrightarrow> (\<forall>c\<in>set cs. \<not> is_granted c))
     \<and> (\<forall>x\<in>set cs. is_granted x \<longrightarrow> ff \<le> time x \<longrightarrow>
           (\<forall>c\<in>set cs. is_granted c \<longrightarrow> c = x) \<longrightarrow>
           (\<exists>k. granted_state w1 = Some k \<and> client_states w1 k = x))"
    unfolding ff_def ks_def
    by (rule load_serialized_granted [OF ok fl])
  then obtain w1 where all: "load_client_states narwhal LoadOk (parse_clock io) w = (Inr (), w1)
     \<and> entries w1 = ks
     \<and> client_states_changed w1 = (\<exists>c\<in>set cs. time c < ff)
     \<and> state_file w1 = state_file w
     \<and> (granted_state w1 = None \<longrightarrow> (\<forall>c\<in>set cs. \<not> is_granted c))
     \<and> (\<forall>x\<in>set cs. is_granted x \<longrightarrow> ff \<le> time x \<longrightarrow>
           (\<forall>c\<in>set cs. is_granted c \<longrightarrow> c = x) \<longrightarrow>
           (\<exists>k. granted_state w1 = Some k \<and> client_states w1 k = x))" ..
  note l = all [THEN conjunct1]
    and e = all [THEN conjunct2, THEN conjunct1]
    and sf = all [THEN conjunct2, THEN conjunct2, THEN conjunct2, THEN conjunct1]
    and g0 = all [THEN conjunct2, THEN conjunct2, THEN conjunct2, THEN conjunct2, THEN conjunct1]
    and g1' = all [THEN conjunct2, THEN conjunct2, THEN conjunct2, THEN conjunct2, THEN conjunct2]
  have g1: "\<exists>k. granted_state w1 = Some k \<and> client_states w1 k = x"
    if "x \<in> set cs" "is_granted x" "ff \<le> time x" "\<forall>c\<in>set cs. is_granted c \<longrightarrow> c = x" for x
    using g1' [THEN bspec, OF that(1), THEN mp, OF that(2), THEN mp, OF that(3), THEN mp, OF that(4)] .
  define now where "now = request_clock io"
  define n where "n = n_client_states w1"
  define g where "g = grant_now want_write w1"
  define i where "i = find_client me (client_states w1) n 0"
  have run: "load_and_request narwhal me want_write io w = request_lock me want_write now DumpOk w1"
    using l by (simp add: load_and_request_def lio dio now_def)
  have inv_ks: "lock_inv ks" unfolding ks_def by (rule lock_inv_filter [OF inv])
  have len: "length ks = n" using e entries_length [of w1] by (simp add: n_def)
  have nth: "ks ! j = client_states w1 j" if "j < n" for j
    using entries_nth [of j w1] that e by (simp add: n_def)
  have sub: "set ks \<subseteq> set cs" by (auto simp: ks_def)
  have fresh: "ff \<le> time c" if "c \<in> set ks" for c using that by (simp add: ks_def)
  have K: "\<not> is_write_lock c \<and> \<not> want_write" if gr: g and c: "c \<in> set ks" "is_granted c" for c
  proof -
    have "granted_state w1 \<noteq> None" using g0 c sub by blast
    then obtain k where k: "granted_state w1 = Some k" by blast
    then have nw: "\<not> want_write" and slot: "\<not> is_write_lock (client_states w1 k)"
      using gr by (simp_all add: g_def grant_now_def)
    have "\<not> is_write_lock c"
    proof
      assume wl: "is_write_lock c"
      have "\<forall>b\<in>set cs. is_granted b \<longrightarrow> b = c"
        using lock_inv_unique [OF inv _ c(2) wl] c(1) sub by blast
      then obtain k' where "granted_state w1 = Some k'" and "client_states w1 k' = c"
        using g1 [of c] c fresh [OF c(1)] sub by blast
      then show False using k slot wl by simp
    qed
    then show ?thesis using nw by simp
  qed
  have range: "i \<le> n"
    using find_client_range [of 0 me "client_states w1" n] by (simp add: i_def)
  show ?thesis
  proof (cases "i = n")
    case True
    define e' where "e' = \<lparr>is_write_lock = want_write, is_granted = g, time = now,
              host_name = my_host_name me, pid = my_pid me\<rparr>"
    have fil: "state_file (snd (request_lock me want_write now DumpOk w1)) = serialize (ks @ [e'])"
      using request_lock_new [of me w1 want_write now] True
      by (simp add: i_def n_def e e'_def g_def)
    have none: "\<not> owned_by me (client_states w1 j)" if "j < n" for j
      using find_client_end [of me "client_states w1" n 0] True that by (simp add: i_def)
    have "owner e' \<notin> set (map owner ks)"
    proof
      assume "owner e' \<in> set (map owner ks)"
      then obtain j where j: "j < n" and "owner (ks ! j) = owner e'"
        using len by (auto simp: in_set_conv_nth)
      then have "owned_by me (client_states w1 j)"
        using nth [OF j] by (simp add: owned_by_owner e'_def owner_def)
      then show False using none [OF j] by simp
    qed
    moreover have "is_granted e' \<longrightarrow>
        (\<forall>c\<in>set ks. is_granted c \<longrightarrow> \<not> is_write_lock c \<and> \<not> is_write_lock e')"
      using K by (simp add: e'_def)
    ultimately have "lock_inv (ks @ [e'])"
      by (rule lock_inv_append [OF inv_ks])
    then show ?thesis using fil run by auto
  next
    case False
    then have lt: "i < n" using range by simp
    have found: "owned_by me (client_states w1 i)"
      and first: "\<forall>j<i. \<not> owned_by me (client_states w1 j)"
      using find_client_found [of me "client_states w1" n 0] lt by (simp_all add: i_def)
    have lt': "i < n_client_states w1" using lt by (simp add: n_def)
    show ?thesis
    proof (cases "is_granted (client_states w1 i) \<or> is_write_lock (client_states w1 i) \<noteq> want_write")
      case True
      have "request_lock me want_write now DumpOk w1 = (Inl ReturnedError, w1\<lparr>errno := ENOTSUP\<rparr>)"
        by (rule request_lock_conflict [OF lt' found first True])
      then have "state_file (snd (load_and_request narwhal me want_write io w)) = serialize cs"
        using run sf fl by simp
      then show ?thesis using inv by blast
    next
      case False
      then have pend: "\<not> is_granted (client_states w1 i)"
        and mode: "is_write_lock (client_states w1 i) = want_write" by simp_all
      define x where "x = (client_states w1 i)\<lparr>is_granted := g, time := now\<rparr>"
      define dirty where "dirty = (client_states_changed w1 \<or> g \<or> time (client_states w1 i) \<noteq> now)"
      define W1 where "W1 = w1\<lparr>client_states := (client_states w1)(i := x),
                     client_states_changed := dirty\<rparr>"
      have res: "request_lock me want_write now DumpOk w1 =
           (if dirty then
              (case dump_client_states DumpOk W1 of
                 (r, w2) \<Rightarrow> (if r < 0 then Inl ReturnedError else Inr g, w2))
            else (Inr g, W1))"
        unfolding W1_def dirty_def x_def g_def
        by (rule request_lock_renew [OF lt' found first pend mode, unfolded Let_def])
      have ent: "entries W1 = ks[i := x]"
        using entries_update [OF lt', of x] e by (simp add: W1_def entries_def)
      show ?thesis
      proof (cases dirty)
        case True
        then have "state_file (snd (request_lock me want_write now DumpOk w1)) = serialize (ks[i := x])"
          using res ent by (simp add: dump_client_states_def)
        moreover have "lock_inv (ks[i := x])"
        proof (rule lock_inv_update [OF inv_ks])
          show "i < length ks" using lt len by simp
          show "owner x = owner (ks ! i)" using nth [OF lt] by (simp add: x_def owner_def)
          show "is_granted x \<longrightarrow>
                (\<forall>c\<in>set ks. is_granted c \<longrightarrow> \<not> is_write_lock c \<and> \<not> is_write_lock x)"
            using K mode by (simp add: x_def)
        qed
        ultimately show ?thesis using run by auto
      next
        case False
        then have "state_file (snd (request_lock me want_write now DumpOk w1)) = serialize cs"
          using res sf fl by (simp add: W1_def)
        then show ?thesis using run inv by auto
      qed
    qed
  qed
qed

subsection \<open>Stale entries are dropped on every load\<close>

text \<open>
  C4. Loading a state file keeps exactly the entries with \<^verbatim>\<open>time >= now - timeout_sec\<close>,
  in their order, and sets \<^verbatim>\<open>client_states_changed\<close> exactly when an entry was
  dropped; no stale entry is left in \<^verbatim>\<open>client_states[0 .. n_client_states)\<close>; with
  \<^verbatim>\<open>timeout_sec = 0\<close> the entries with \<^verbatim>\<open>time < now\<close> are the ones dropped. The file is
  one the library wrote: the serialization of entries whose host and pid are not
  empty and hold no space, line break or \<^verbatim>\<open>'\0'\<close>. The last part holds for any buffer:
  whenever a load succeeds, no entry it kept is stale.
\<close>

theorem load_keeps_exactly_the_fresh_entries:
  assumes "\<forall>c\<in>set cs. entry_ok c" and "state_file w = serialize cs"
  shows "\<exists>w'. load_client_states narwhal LoadOk now w = (Inr (), w')
     \<and> entries w' = filter (\<lambda>c. time c \<ge> now - timeout_sec narwhal) cs
     \<and> client_states_changed w' = (\<exists>c\<in>set cs. time c < now - timeout_sec narwhal)
     \<and> (\<forall>c\<in>set (entries w'). \<not> time c < now - timeout_sec narwhal)
     \<and> (timeout_sec narwhal = 0 \<longrightarrow> entries w' = filter (\<lambda>c. \<not> time c < now) cs)
     \<and> (\<forall>io v v'. load_client_states narwhal io now v = (Inr (), v') \<longrightarrow>
            (\<forall>c\<in>set (entries v'). \<not> time c < now - timeout_sec narwhal))"
proof -
  obtain w' where l: "load_client_states narwhal LoadOk now w = (Inr (), w')"
    and e: "entries w' = filter (\<lambda>c. now - timeout_sec narwhal \<le> time c) cs"
    and c: "client_states_changed w' = (\<exists>c\<in>set cs. time c < now - timeout_sec narwhal)"
    using load_serialized [OF assms, of narwhal now] by blast
  have "\<forall>c\<in>set (entries w'). \<not> time c < now - timeout_sec narwhal"
    using load_fresh [OF l] by (simp add: not_less)
  moreover have "timeout_sec narwhal = 0 \<longrightarrow> entries w' = filter (\<lambda>c. \<not> time c < now) cs"
    using e by (simp add: not_less)
  moreover have "\<forall>c\<in>set (entries v'). \<not> time c < now - timeout_sec narwhal"
    if "load_client_states narwhal io now v = (Inr (), v')" for io v v'
    using load_fresh [OF that] by (simp add: not_less)
  ultimately show ?thesis using l e c by blast
qed

theorem load_keeps_exactly_the_fresh_entries_witness:
  "entry_ok entry_A_stale \<and> entry_ok entry_B_fresh
   \<and> state_file (fresh_process (serialize [entry_A_stale, entry_B_fresh]))
       = serialize [entry_A_stale, entry_B_fresh]
   \<and> (\<exists>w'. load_client_states scenario LoadOk 100
              (fresh_process (serialize [entry_A_stale, entry_B_fresh])) = (Inr (), w')
          \<and> entries w' = [entry_B_fresh]
          \<and> client_states_changed w')"
proof -
  have ok: "\<forall>c\<in>set [entry_A_stale, entry_B_fresh]. entry_ok c"
    by (simp add: entry_ok_def field_ok_def entry_A_stale_def entry_B_fresh_def)
  have fl: "state_file (fresh_process (serialize [entry_A_stale, entry_B_fresh]))
       = serialize [entry_A_stale, entry_B_fresh]"
    by (simp add: fresh_process_def)
  have "\<exists>w'. load_client_states scenario LoadOk 100
              (fresh_process (serialize [entry_A_stale, entry_B_fresh])) = (Inr (), w')
          \<and> entries w' = [entry_B_fresh]
          \<and> client_states_changed w'"
    using load_keeps_exactly_the_fresh_entries [OF ok fl, of scenario 100]
    by (simp add: scenario_def entry_A_stale_def entry_B_fresh_def) blast
  then show ?thesis using ok fl by simp
qed

subsection \<open>Parsing and serializing again\<close>

text \<open>
  C8, as stated: for every string \<^verbatim>\<open>s\<close> the serializer produces, parsing \<^verbatim>\<open>s\<close> and
  serializing the result gives \<^verbatim>\<open>s\<close>. It fails when an entry of \<^verbatim>\<open>s\<close> is stale at the
  time of parsing, since the parser drops it: the line \<^verbatim>\<open>host1 100 R G 0\<close> parsed at
  time 100 with timeout 10 gives the empty file. It also fails when a host or pid
  holds a separator (\<^verbatim>\<open>narwhal_pid\<close> stores any non-empty string): the parser then
  stops at an \<^verbatim>\<open>assert\<close>.
\<close>

theorem round_trip_fails_on_stale_entry:
  "load_then_dump scenario 100 (fresh_process (serialize [entry_A_stale]))
     \<noteq> Inr (serialize [entry_A_stale])
   \<and> load_then_dump scenario 100 (fresh_process (serialize [entry_A_stale])) = Inr []
   \<and> load_then_dump scenario 100 (fresh_process (serialize [entry_odd_pid]))
     \<noteq> Inr (serialize [entry_odd_pid])
   \<and> load_then_dump scenario 100 (fresh_process (serialize [entry_odd_pid]))
     = Inl AssertFailed"
  by code_simp

text \<open>
  C8, amended: for every string the serializer produces from entries whose host and
  pid are not empty and hold no space, line break or \<^verbatim>\<open>'\0'\<close>, and none of which is
  stale at the time of parsing, parsing and serializing again gives the same string.
\<close>

theorem round_trip_of_fresh_entries:
  assumes "\<forall>c\<in>set cs. entry_ok c"
    and "\<forall>c\<in>set cs. time c \<ge> now - timeout_sec narwhal"
    and "state_file w = serialize cs"
  shows "load_then_dump narwhal now w = Inr (serialize cs)"
proof -
  obtain w' where l: "load_client_states narwhal LoadOk now w = (Inr (), w')"
    and e: "entries w' = filter (\<lambda>c. now - timeout_sec narwhal \<le> time c) cs"
    using load_serialized [OF assms(1,3), of narwhal now] by blast
  have "entries w' = cs"
    using e assms(2) by simp
  then show ?thesis
    using l by (simp add: load_then_dump_def dump_client_states_def)
qed

theorem round_trip_of_fresh_entries_witness:
  "entry_ok entry_B_fresh
   \<and> time entry_B_fresh \<ge> 100 - timeout_sec scenario
   \<and> state_file (fresh_process (serialize [entry_B_fresh])) = serialize [entry_B_fresh]
   \<and> load_then_dump scenario 100 (fresh_process (serialize [entry_B_fresh]))
       = Inr (serialize [entry_B_fresh])"
proof -
  have ok: "\<forall>c\<in>set [entry_B_fresh]. entry_ok c"
    by (simp add: entry_ok_def field_ok_def entry_B_fresh_def)
  have fr: "\<forall>c\<in>set [entry_B_fresh]. time c \<ge> 100 - timeout_sec scenario"
    by (simp add: entry_B_fresh_def scenario_def)
  have fl: "state_file (fresh_process (serialize [entry_B_fresh])) = serialize [entry_B_fresh]"
    by (simp add: fresh_process_def)
  show ?thesis
    using ok fr fl round_trip_of_fresh_entries [OF ok fr fl] by simp
qed

subsection \<open>Releasing the mutex\<close>

text \<open>
  C7, as stated: when at least one \<^verbatim>\<open>unlink\<close> fails, the reported error is the first
  failure. With no error on entry, the first \<^verbatim>\<open>unlink\<close> failing with \<^verbatim>\<open>ENOENT\<close> and
  the second with \<^verbatim>\<open>EACCES\<close>, the call returns \<^verbatim>\<open>-1\<close> and \<^verbatim>\<open>errno\<close> is \<^verbatim>\<open>EACCES\<close>,
  the second failure.
\<close>

theorem exclusive_unlock_reports_second_failure:
  "fst (exclusive_unlock scenario proc_A (Some ENOENT) (Some EACCES) (fresh_process [])) = - 1
   \<and> errno (snd (exclusive_unlock scenario proc_A (Some ENOENT) (Some EACCES) (fresh_process [])))
       = EACCES
   \<and> errno (snd (exclusive_unlock scenario proc_A (Some ENOENT) (Some EACCES) (fresh_process [])))
       \<noteq> ENOENT"
  by (simp add: exclusive_unlock_def unlink_def Let_def fresh_process_def ENOENT_def EACCES_def)

text \<open>
  C7, amended: \<^verbatim>\<open>exclusive_unlock\<close> unlinks the lock file first and the private file
  second, and makes both calls whatever the first one returns; it returns \<^verbatim>\<open>-1\<close>
  exactly when at least one of them fails; \<^verbatim>\<open>errno\<close> afterwards is the code present on
  entry when there was one (so it is never clobbered), otherwise the code of the
  last \<^verbatim>\<open>unlink\<close> that failed, otherwise 0. The state file is not touched.
\<close>

theorem exclusive_unlock_report:
  "lock_calls (snd (exclusive_unlock narwhal me io1 io2 w))
     = lock_calls w @ [Unlink (lockfile_path narwhal), Unlink (private_path narwhal me)]
   \<and> fst (exclusive_unlock narwhal me io1 io2 w) = (if io1 = None \<and> io2 = None then 0 else - 1)
   \<and> errno (snd (exclusive_unlock narwhal me io1 io2 w))
     = (if errno w \<noteq> 0 then errno w
        else case io2 of Some e2 \<Rightarrow> e2 | None \<Rightarrow> (case io1 of Some e1 \<Rightarrow> e1 | None \<Rightarrow> 0))
   \<and> state_file (snd (exclusive_unlock narwhal me io1 io2 w)) = state_file w"
  by (cases io1; cases io2) (simp_all add: exclusive_unlock_def unlink_def Let_def)

subsection \<open>A request that conflicts with the caller's own entry\<close>

text \<open>
  C5. When the loaded state holds an entry of the caller (the first one the search
  finds, the only one when no two entries share an owner) that is granted already
  or has the other mode, \<^verbatim>\<open>request_lock\<close> fails with \<^verbatim>\<open>errno = ENOTSUP\<close> and changes
  nothing else, the state file included; and a public acquire that loads such a
  state in its first round returns an error with \<^verbatim>\<open>errno = ENOTSUP\<close>, whatever the
  two \<^verbatim>\<open>unlink\<close> calls do, and leaves the state file as it was before the call.
\<close>

theorem conflicting_request_is_unsupported:
  assumes i: "i < n_client_states w2" and own: "owned_by me (client_states w2 i)"
    and first: "\<forall>j<i. \<not> owned_by me (client_states w2 j)"
    and bad: "is_granted (client_states w2 i) \<or> is_write_lock (client_states w2 i) \<noteq> want_write"
  shows "request_lock me want_write now dio w2 = (Inl ReturnedError, w2\<lparr>errno := ENOTSUP\<rparr>)
       \<and> (\<forall>narwhal io ios w w1.
             exclusive_lock narwhal me io w = Some (Inr (), w1) \<longrightarrow>
             load_client_states narwhal (load_io io) (parse_clock io) w1 = (Inr (), w2) \<longrightarrow>
             (\<exists>w'. lock_rounds narwhal me want_write (io # ios) w = Some (Inl ReturnedError, w')
                \<and> errno w' = ENOTSUP \<and> state_file w' = state_file w))"
proof (intro conjI allI impI)
  show "request_lock me want_write now dio w2 = (Inl ReturnedError, w2\<lparr>errno := ENOTSUP\<rparr>)"
    by (rule request_lock_conflict [OF i own first bad])
next
  fix narwhal :: Narwhal and io :: round_io and ios :: "round_io list" and w w1 :: world
  assume lock: "exclusive_lock narwhal me io w = Some (Inr (), w1)"
    and load: "load_client_states narwhal (load_io io) (parse_clock io) w1 = (Inr (), w2)"
  define w3 where "w3 = w2\<lparr>errno := ENOTSUP\<rparr>"
  have req: "request_lock me want_write (request_clock io) (dump_io io) w2 = (Inl ReturnedError, w3)"
    unfolding w3_def by (rule request_lock_conflict [OF i own first bad])
  then have lr: "load_and_request narwhal me want_write io w1 = (Inl ReturnedError, w3)"
    using load by (simp add: load_and_request_def)
  obtain u w4 where un: "exclusive_unlock narwhal me (unlink_lockfile_io io) (unlink_private_io io) w3 = (u, w4)"
    by (cases "exclusive_unlock narwhal me (unlink_lockfile_io io) (unlink_private_io io) w3")
  have e3: "errno w3 = ENOTSUP" and nz: "errno w3 \<noteq> 0"
    by (simp_all add: w3_def ENOTSUP_def)
  have "errno (snd (exclusive_unlock narwhal me (unlink_lockfile_io io) (unlink_private_io io) w3))
          = errno w3"
    by (rule exclusive_unlock_errno [OF nz])
  then have "errno w4 = ENOTSUP"
    using un e3 by simp
  moreover have "state_file (snd (exclusive_unlock narwhal me (unlink_lockfile_io io)
          (unlink_private_io io) w3)) = state_file w3"
    by (rule exclusive_unlock_file)
  then have "state_file w4 = state_file w"
    using un load_frame [OF load] exclusive_lock_frame [OF lock] by (simp add: w3_def)
  moreover have "lock_rounds narwhal me want_write (io # ios) w = Some (Inl ReturnedError, w4)"
    using lock lr un by simp
  ultimately show "\<exists>w'. lock_rounds narwhal me want_write (io # ios) w = Some (Inl ReturnedError, w')
                \<and> errno w' = ENOTSUP \<and> state_file w' = state_file w"
    by blast
qed

theorem conflicting_request_is_unsupported_witness:
  "fst (request_lock proc_A True 50 DumpOk
          (loaded_after_lock proc_A (''host1 100 R G 50'' @ [CHR 0x0A]) 50))
     = Inl ReturnedError
   \<and> errno (snd (request_lock proc_A True 50 DumpOk
          (loaded_after_lock proc_A (''host1 100 R G 50'' @ [CHR 0x0A]) 50))) = ENOTSUP
   \<and> (\<exists>w'. lock_rounds scenario proc_A True [calm_round 50]
              (fresh_process (''host1 100 R G 50'' @ [CHR 0x0A])) = Some (Inl ReturnedError, w')
          \<and> errno w' = ENOTSUP \<and> state_file w' = ''host1 100 R G 50'' @ [CHR 0x0A])"
proof -
  let ?file = "''host1 100 R G 50'' @ [CHR 0x0A]"
  let ?io = "calm_round 50"
  define w2 where "w2 = loaded_after_lock proc_A ?file 50"
  have lock: "exclusive_lock scenario proc_A ?io (fresh_process ?file) = Some (Inr (), locked proc_A ?file)"
    by (rule exclusive_lock_calm)
  have "fst (load_client_states scenario (load_io ?io) (parse_clock ?io) (locked proc_A ?file)) = Inr ()"
    by code_simp
  moreover have "snd (load_client_states scenario (load_io ?io) (parse_clock ?io) (locked proc_A ?file)) = w2"
    by (simp add: w2_def loaded_after_lock_def calm_round_def)
  ultimately have load:
    "load_client_states scenario (load_io ?io) (parse_clock ?io) (locked proc_A ?file) = (Inr (), w2)"
    by (metis prod.collapse)
  have n: "0 < n_client_states w2" unfolding w2_def loaded_after_lock_def by code_simp
  have own: "owned_by proc_A (client_states w2 0)" unfolding w2_def loaded_after_lock_def by code_simp
  have first: "\<forall>j<0. \<not> owned_by proc_A (client_states w2 j)" by simp
  have bad: "is_granted (client_states w2 0) \<or> is_write_lock (client_states w2 0) \<noteq> True"
    unfolding w2_def loaded_after_lock_def by code_simp
  note c = conflicting_request_is_unsupported [OF n own first bad, of 50 DumpOk]
  have "request_lock proc_A True 50 DumpOk w2 = (Inl ReturnedError, w2\<lparr>errno := ENOTSUP\<rparr>)"
    using c by blast
  moreover have "\<exists>w'. lock_rounds scenario proc_A True [?io] (fresh_process ?file)
                        = Some (Inl ReturnedError, w')
          \<and> errno w' = ENOTSUP \<and> state_file w' = state_file (fresh_process ?file)"
    using c lock load by blast
  ultimately show ?thesis
    unfolding w2_def by (simp add: fresh_process_def)
qed

subsection \<open>Readers arriving behind a pending writer\<close>

text \<open>
  C1. The claim: while one entry is a granted read and another a pending write, an
  acquire-read of a third process is not granted on that call; its new entry is
  written as \<^verbatim>\<open>R P\<close>. The code decides from \<^verbatim>\<open>granted_state\<close> alone and never
  looks at pending entries. \<^verbatim>\<open>host1 100\<close> acquires the read lock at time 50; the
  acquire-write of \<^verbatim>\<open>host1 200\<close> is not granted in its first round and leaves
  \<^verbatim>\<open>host1 200 W P 50\<close>; with these two lines in the file, the acquire-read of
  \<^verbatim>\<open>host1 300\<close> returns success in its first round and leaves the entry
  \<^verbatim>\<open>host1 300 R G 50\<close>.
\<close>

theorem reader_granted_past_pending_writer:
  "outcome (narwhal_read_lock scenario proc_A [calm_round 50] (fresh_process []))
     = Some (Inr (), ''host1 100 R G 50'' @ [CHR 0x0A])
   \<and> outcome (narwhal_write_lock scenario proc_B [calm_round 50]
        (fresh_process (''host1 100 R G 50'' @ [CHR 0x0A]))) = None
   \<and> map_prod id state_file (load_and_request scenario proc_B True (calm_round 50)
        (fresh_process (''host1 100 R G 50'' @ [CHR 0x0A])))
     = (Inr False, ''host1 100 R G 50'' @ [CHR 0x0A] @ ''host1 200 W P 50'' @ [CHR 0x0A])
   \<and> outcome (narwhal_read_lock scenario proc_C [calm_round 50]
      (fresh_process (''host1 100 R G 50'' @ [CHR 0x0A] @ ''host1 200 W P 50'' @ [CHR 0x0A])))
     = Some (Inr (), ''host1 100 R G 50'' @ [CHR 0x0A] @ ''host1 200 W P 50'' @ [CHR 0x0A]
               @ ''host1 300 R G 50'' @ [CHR 0x0A])"
  by code_simp

subsection \<open>A stale granted entry\<close>

text \<open>
  C2. The claim: \<^verbatim>\<open>grant_now\<close> is true when no entry kept after the load is granted;
  in particular, when the only granted entry of the file is stale, an acquire-write
  drops it on its first load and is granted in that same call of the engine. The
  parser sets \<^verbatim>\<open>granted_state\<close> when it reads the status field, before it reads the
  time and finds the entry stale, so the pointer survives the dropped entry: with
  only \<^verbatim>\<open>host1 100 R G 0\<close> in the file, timeout 10 and the clock at 100, the first
  round of the acquire-write of \<^verbatim>\<open>host1 200\<close> drops the entry, is not granted and
  writes \<^verbatim>\<open>host1 200 W P 100\<close>; the call has not returned after that round, and is
  granted in the second.
\<close>

theorem stale_granted_entry_blocks_writer:
  "map_prod id state_file
     (load_and_request scenario proc_B True (calm_round 100)
        (fresh_process (''host1 100 R G 0'' @ [CHR 0x0A])))
     = (Inr False, ''host1 200 W P 100'' @ [CHR 0x0A])
   \<and> outcome (narwhal_write_lock scenario proc_B [calm_round 100]
        (fresh_process (''host1 100 R G 0'' @ [CHR 0x0A]))) = None
   \<and> outcome (narwhal_write_lock scenario proc_B [calm_round 100, calm_round 100]
        (fresh_process (''host1 100 R G 0'' @ [CHR 0x0A])))
     = Some (Inr (), ''host1 200 W G 100'' @ [CHR 0x0A])"
  by code_simp

subsection \<open>A pending request behind a stale granted entry\<close>

text \<open>
  C9. The claim: when the caller's entry is pending with the requested mode and
  \<^verbatim>\<open>grant_now\<close> holds (no entry kept by the load is granted), the entry is flipped
  to granted and the engine returns \<^verbatim>\<open>grant_now\<close>. The refreshing of the time and
  the writing of a dirty state are as the claim says (lemma
  \<^verbatim>\<open>request_lock_renew\<close>), but the decision is taken from \<^verbatim>\<open>granted_state\<close>, which
  survives a dropped entry as in C2. \<^verbatim>\<open>host1 100\<close> acquires the read lock at time 0
  and never releases it; with timeout 10, the first round of the acquire-write of
  \<^verbatim>\<open>host1 200\<close> at time 10 leaves \<^verbatim>\<open>host1 200 W P 10\<close> behind the granted read.
  In its second round, at time 11, the load drops the read entry, now stale, and
  keeps only the caller's pending write: no kept entry is granted, so the
  specification's \<^verbatim>\<open>grant_now\<close> holds, yet the code's is false, the entry is not
  flipped, \<^verbatim>\<open>host1 200 W P 11\<close> is written and the round returns 0. The call has
  not returned after these two rounds; the entry is flipped in the third.
\<close>

theorem pending_writer_not_granted_after_stale_drop:
  "outcome (narwhal_read_lock scenario proc_A [calm_round 0] (fresh_process []))
     = Some (Inr (), ''host1 100 R G 0'' @ [CHR 0x0A])
   \<and> map_prod id state_file
       (load_and_request scenario proc_B True (calm_round 10)
          (fresh_process (''host1 100 R G 0'' @ [CHR 0x0A])))
     = (Inr False, ''host1 100 R G 0'' @ [CHR 0x0A] @ ''host1 200 W P 10'' @ [CHR 0x0A])
   \<and> map (\<lambda>c. (owner c, is_write_lock c, is_granted c, time c))
       (entries (loaded (''host1 100 R G 0'' @ [CHR 0x0A] @ ''host1 200 W P 10'' @ [CHR 0x0A]) 11))
     = [((''host1'', ''200''), True, False, 10)]
   \<and> spec_grant_now True
       (entries (loaded (''host1 100 R G 0'' @ [CHR 0x0A] @ ''host1 200 W P 10'' @ [CHR 0x0A]) 11))
   \<and> grant_now True
       (loaded (''host1 100 R G 0'' @ [CHR 0x0A] @ ''host1 200 W P 10'' @ [CHR 0x0A]) 11) = False
   \<and> map_prod id state_file
       (load_and_request scenario proc_B True (calm_round 11)
          (fresh_process (''host1 100 R G 0'' @ [CHR 0x0A] @ ''host1 200 W P 10'' @ [CHR 0x0A])))
     = (Inr False, ''host1 200 W P 11'' @ [CHR 0x0A])
   \<and> outcome (narwhal_write_lock scenario proc_B [calm_round 10, calm_round 11]
        (fresh_process (''host1 100 R G 0'' @ [CHR 0x0A]))) = None
   \<and> outcome (narwhal_write_lock scenario proc_B [calm_round 10, calm_round 11, calm_round 11]
        (fresh_process (''host1 100 R G 0'' @ [CHR 0x0A])))
     = Some (Inr (), ''host1 200 W G 11'' @ [CHR 0x0A])"
  by code_simp

subsection \<open>Release\<close>

text \<open>
  C6. The claim: release removes the caller's entry, keeps the order of the others,
  writes the state and returns success. \<^verbatim>\<open>remove_lock\<close> moves the later entries one
  slot down but leaves \<^verbatim>\<open>n_client_states\<close> as it was, and \<^verbatim>\<open>dump_client_states\<close>
  writes that many slots: after its acquire-read at time 50 the file holds
  \<^verbatim>\<open>host1 100 R G 50\<close>; the release of \<^verbatim>\<open>host1 100\<close> at time 51 returns success, and
  the file still holds that line.
\<close>

theorem release_keeps_last_entry:
  "outcome (narwhal_read_lock scenario proc_A [calm_round 50] (fresh_process []))
     = Some (Inr (), ''host1 100 R G 50'' @ [CHR 0x0A])
   \<and> outcome
       (next_call (narwhal_read_lock scenario proc_A [calm_round 50] (fresh_process []))
          (narwhal_unlock scenario proc_A (calm_round 51)))
     = Some (Inr (), ''host1 100 R G 50'' @ [CHR 0x0A])"
  by code_simp

text \<open>
  C3. The claim: after every public operation that returns success no two entries
  of the written state share \<^verbatim>\<open>(host, pid)\<close>, all granted entries have the same mode,
  and a granted write is the only granted entry. Acquiring keeps these invariants
  (\<open>acquire_preserves_lock_inv\<close>); releasing does not: after the acquire-reads of
  \<^verbatim>\<open>host1 100\<close> and \<^verbatim>\<open>host1 200\<close> the file holds \<^verbatim>\<open>host1 100 R G 50\<close> and
  \<^verbatim>\<open>host1 200 R G 50\<close>, and the release of \<^verbatim>\<open>host1 100\<close> then returns success and
  writes the line of \<^verbatim>\<open>host1 200\<close> twice (\<^verbatim>\<open>n_client_states\<close> is not decremented, as
  in C6).
\<close>

theorem release_duplicates_last_entry:
  "outcome (narwhal_read_lock scenario proc_A [calm_round 50] (fresh_process []))
     = Some (Inr (), ''host1 100 R G 50'' @ [CHR 0x0A])
   \<and> outcome (narwhal_read_lock scenario proc_B [calm_round 50]
        (fresh_process (''host1 100 R G 50'' @ [CHR 0x0A])))
     = Some (Inr (), ''host1 100 R G 50'' @ [CHR 0x0A] @ ''host1 200 R G 50'' @ [CHR 0x0A])
   \<and> map_option (\<lambda>(x, w). (x, state_file w, distinct (owners w)))
     (narwhal_unlock scenario proc_A (calm_round 50)
        (fresh_process (''host1 100 R G 50'' @ [CHR 0x0A] @ ''host1 200 R G 50'' @ [CHR 0x0A])))
   = Some (Inr (), ''host1 200 R G 50'' @ [CHR 0x0A] @ ''host1 200 R G 50'' @ [CHR 0x0A],
           False)"
  by code_simp

subsection \<open>The assertion of \<^verbatim>\<open>remove_lock\<close>\<close>

text \<open>
  C10. The claim: in every state a single process reaches from an empty lock
  directory, an entry of the caller that release finds is granted, so the
  \<^verbatim>\<open>assert\<close> of \<^verbatim>\<open>remove_lock\<close> cannot fail. One process, timeout 10: it acquires the
  write lock at time 0; at time 100 it asks for the write lock again, its own stale
  entry is dropped but still blocks the request (as in C2), and the first round
  writes \<^verbatim>\<open>host1 100 W P 100\<close>.
  \<^item> When \<^verbatim>\<open>creat\<close> fails in the second round, the call returns an error, and the
    release that follows finds the pending entry: the assertion fails.
  \<^item> When the second round times out on the mutex instead (the clock reads 111 after
    the failed \<^verbatim>\<open>link\<close>), a release with the same timeout drops the entry as stale
    and returns \<^verbatim>\<open>ENOTSUP\<close>; a release called with a timeout of 60 seconds keeps the
    entry, and the assertion fails.
\<close>

theorem release_asserts_on_own_pending_entry:
  "outcome (narwhal_write_lock scenario proc_A [calm_round 0] (fresh_process []))
     = Some (Inr (), ''host1 100 W G 0'' @ [CHR 0x0A])
   \<and> outcome
       (next_call (narwhal_write_lock scenario proc_A [calm_round 0] (fresh_process []))
         (narwhal_write_lock scenario proc_A
            [calm_round 100, (calm_round 100)\<lparr>creat_io := Some EIO\<rparr>]))
     = Some (Inl ReturnedError, ''host1 100 W P 100'' @ [CHR 0x0A])
   \<and> outcome
       (next_call
         (next_call (narwhal_write_lock scenario proc_A [calm_round 0] (fresh_process []))
           (narwhal_write_lock scenario proc_A
              [calm_round 100, (calm_round 100)\<lparr>creat_io := Some EIO\<rparr>]))
         (narwhal_unlock scenario proc_A (calm_round 100)))
     = Some (Inl AssertFailed, ''host1 100 W P 100'' @ [CHR 0x0A])
   \<and> map_option (\<lambda>(x, w). (x, state_file w, errno w))
       (next_call (narwhal_write_lock scenario proc_A [calm_round 0] (fresh_process []))
         (narwhal_write_lock scenario proc_A [calm_round 100, busy_round 100 111]))
     = Some (Inl ReturnedError, ''host1 100 W P 100'' @ [CHR 0x0A], ETIMEDOUT)
   \<and> outcome
       (next_call
         (next_call (narwhal_write_lock scenario proc_A [calm_round 0] (fresh_process []))
           (narwhal_write_lock scenario proc_A [calm_round 100, busy_round 100 111]))
         (narwhal_unlock scenario proc_A (calm_round 111)))
     = Some (Inl ReturnedError, ''host1 100 W P 100'' @ [CHR 0x0A])
   \<and> outcome
       (next_call
         (next_call (narwhal_write_lock scenario proc_A [calm_round 0] (fresh_process []))
           (narwhal_write_lock scenario proc_A [calm_round 100, busy_round 100 111]))
         (narwhal_unlock patient proc_A (calm_round 111)))
     = Some (Inl AssertFailed, ''host1 100 W P 100'' @ [CHR 0x0A])"
  by code_simp

end
